theory Spec2Isabelle
  imports Main "HOL-Library.Multiset" "HOL-Library.Monad_Syntax" "HOL-Library.Signed_Division"
begin

section \<open>A parallel quicksort: qsort_demo.c\<close>

text \<open>
  The program sorts a C array of \<open>int\<close> in place: \<open>partition\<close> splits a range around
  the value found at its midpoint, \<open>qSort\<close> recurses on both sides, and \<open>qSortPar\<close> does the
  same but, for ranges not shorter than the global \<open>cutoff\<close>, hands both sides to the
  OpenMP runtime as tasks.

  \<^item> The array object is an \<open>int list\<close>.  The elements are only copied and compared, never
    computed with, so their machine width plays no part and they are modelled as integers.
  \<^item> A pointer into the array is the index of the cell it points to; \<open>A + p\<close> is index
    arithmetic.  The C \<open>int\<close> variables \<open>length\<close>, \<open>i\<close>, \<open>j\<close> and \<open>p\<close> are integers too.
    A cursor is only ever moved by one from a cell that has just been read, so on an array
    whose length fits a C \<open>int\<close> none of them can wrap around before an access has
    already left the array.
  \<^item> An access outside the array object is undefined behaviour in C.  It is the value
    \<open>None\<close> here, and it ends the computation.
\<close>

subsection \<open>Array accesses\<close>

text \<open>\<open>rd m k\<close> is the read of cell \<open>k\<close>, \<open>wr m k v\<close> the assignment of \<open>v\<close> to it.\<close>

definition rd :: "int list \<Rightarrow> int \<Rightarrow> int option" where
  "rd m k = (if 0 \<le> k \<and> k < int (length m) then Some (m ! nat k) else None)"

definition wr :: "int list \<Rightarrow> int \<Rightarrow> int \<Rightarrow> int list option" where
  "wr m k v = (if 0 \<le> k \<and> k < int (length m) then Some (m[nat k := v]) else None)"

subsection \<open>partition\<close>

text \<open>
  The two inner loops,
  \<^verbatim>\<open>while (A[i] < pivot) i++;\<close> and \<^verbatim>\<open>while (A[j] > pivot) j--;\<close>.
  Each returns the cursor at which it stops.  Neither tests a bound; with checked reads a
  scan that leaves the array object yields \<open>None\<close>, which is also why both recursions
  terminate.
\<close>

function scan_up :: "int list \<Rightarrow> int \<Rightarrow> int \<Rightarrow> int \<Rightarrow> int option" where
  "scan_up m A pivot i =
     (case rd m (A + i) of
        None \<Rightarrow> None
      | Some v \<Rightarrow> if v < pivot then scan_up m A pivot (i + 1) else Some i)"
  by pat_completeness auto
termination
  by (relation "measure (\<lambda>(m, A, pivot, i). nat (int (length m) - (A + i)))")
     (auto simp: rd_def split: if_splits)

function scan_down :: "int list \<Rightarrow> int \<Rightarrow> int \<Rightarrow> int \<Rightarrow> int option" where
  "scan_down m A pivot j =
     (case rd m (A + j) of
        None \<Rightarrow> None
      | Some v \<Rightarrow> if v > pivot then scan_down m A pivot (j - 1) else Some j)"
  by pat_completeness auto
termination
  by (relation "measure (\<lambda>(m, A, pivot, j). nat (A + j + 1))")
     (auto simp: rd_def split: if_splits)

text \<open>
  The outer \<^verbatim>\<open>while (true)\<close> loop: run both scans, return \<open>i\<close> when the cursors have
  met or crossed, otherwise exchange \<open>A[i]\<close> and \<open>A[j]\<close> through \<open>temp\<close>, move both
  cursors and repeat.  The result is the array after the exchanges together with the
  returned index.
\<close>

function partition_loop :: "int list \<Rightarrow> int \<Rightarrow> int \<Rightarrow> int \<Rightarrow> int \<Rightarrow> (int list \<times> int) option" where
  "partition_loop m A pivot i j =
     (case scan_up m A pivot i of
        None \<Rightarrow> None
      | Some i' \<Rightarrow>
     (case scan_down m A pivot j of
        None \<Rightarrow> None
      | Some j' \<Rightarrow>
          if i' \<ge> j' then Some (m, i')
          else
            (case rd m (A + i') of None \<Rightarrow> None | Some temp \<Rightarrow>
            (case rd m (A + j') of None \<Rightarrow> None | Some aj \<Rightarrow>
            (case wr m (A + i') aj of None \<Rightarrow> None | Some m1 \<Rightarrow>
            (case wr m1 (A + j') temp of None \<Rightarrow> None | Some m2 \<Rightarrow>
               partition_loop m2 A pivot (i' + 1) (j' - 1)))))))"
  by pat_completeness auto
termination
proof (relation "measure (\<lambda>(m, A, pivot, i, j). nat (int (length m) - (A + i)))", goal_cases)
  case 1
  show ?case by simp
next
  case (2 m A pivot i j i' j' temp aj m1 m2)
  have up: "scan_up m A pivot i = Some i' \<Longrightarrow> i \<le> i' \<and> A + i' < int (length m)"
    for m A pivot i i'
  proof (induction m A pivot i rule: scan_up.induct)
    case (1 m A pivot i)
    show ?case
    proof (cases "rd m (A + i)")
      case None
      with "1.prems" show ?thesis by simp
    next
      case (Some v)
      show ?thesis
      proof (cases "v < pivot")
        case True
        with Some "1.prems" have "scan_up m A pivot (i + 1) = Some i'" by simp
        from "1.IH"[OF Some True this] show ?thesis by simp
      next
        case False
        with Some "1.prems" have "i' = i" by simp
        with Some show ?thesis by (simp add: rd_def split: if_splits)
      qed
    qed
  qed
  have len: "wr m k v = Some m' \<Longrightarrow> length m' = length m" for m k v and m' :: "int list"
    by (auto simp: wr_def split: if_splits)
  from up[OF 2(1)] len[OF 2(6)] len[OF 2(7)]
  show ?case by simp
qed

text \<open>
  \<open>partition\<close> itself: the pivot is \<open>A[length / 2]\<close>, with C's division that truncates
  towards zero.  (The name carries a suffix because the list library already has a
  \<open>partition\<close>.)
\<close>

definition partition_arr :: "int list \<Rightarrow> int \<Rightarrow> int \<Rightarrow> (int list \<times> int) option" where
  "partition_arr m A len =
     (case rd m (A + len sdiv 2) of
        None \<Rightarrow> None
      | Some pivot \<Rightarrow> partition_loop m A pivot 0 (len - 1))"

subsection \<open>The sorters\<close>

text \<open>
  The state threaded through the sorters has three fields.
  \<^item> \<open>mem\<close> is the array object.
  \<^item> \<open>plog\<close> records, in order, the arguments \<open>(A, length)\<close> of every call of
    \<open>partition\<close> made so far.  The program keeps no such log; it is recorded so that
    statements about the sequence of partition operations can be made.
  \<^item> \<open>pool\<close> holds the tasks created by \<^verbatim>\<open>#pragma omp task\<close> that have not been run
    yet, each as the pair \<open>(A, length)\<close> of its captured arguments.

  \<open>qSort\<close> and \<open>qSortPar\<close> are partial functions in the option monad, so that nothing
  about their termination is assumed by the definition: \<open>None\<close> stands for a call that
  does not return normally, be it through an access out of bounds or through recursion
  without end.  \<open>cutoff\<close> is a global variable of the program that is set once before
  sorting; it is a parameter here.
\<close>

record state =
  mem :: "int list"
  plog :: "(int \<times> int) list"
  pool :: "(int \<times> int) list"

partial_function (option) qSort :: "state \<Rightarrow> int \<Rightarrow> int \<Rightarrow> state option" where
  "qSort s A len =
     (if len > 1 then
        do {
          (m', p) \<leftarrow> partition_arr (mem s) A len;
          s1 \<leftarrow> qSort (s\<lparr>mem := m', plog := plog s @ [(A, len)]\<rparr>) A p;
          qSort s1 (A + p) (len - p)
        }
      else Some s)"

partial_function (option) qSortPar :: "int \<Rightarrow> state \<Rightarrow> int \<Rightarrow> int \<Rightarrow> state option" where
  "qSortPar cutoff s A len =
     (if len > 1 then
        do {
          (m', p) \<leftarrow> partition_arr (mem s) A len;
          let s0 = s\<lparr>mem := m', plog := plog s @ [(A, len)]\<rparr>;
          if len < cutoff then
            do {
              s1 \<leftarrow> qSortPar cutoff s0 A p;
              qSortPar cutoff s1 (A + p) (len - p)
            }
          else
            Some (s0\<lparr>pool := pool s0 @ [(A, p), (A + p, len - p)]\<rparr>)
        }
      else Some s)"

text \<open>
  In \<open>main\<close> the parallel sort is
  \<^verbatim>\<open>#pragma omp parallel num_threads(thread_count)\<close>
  \<^verbatim>\<open>{ #pragma omp single nowait qSortPar(A2, length); }\<close>
  One thread makes the initial call; the tasks it creates, and the tasks those create, are
  run by the threads of the team in an order chosen by the runtime, and the barrier that
  closes the region waits until none is left.

  \<open>run_tasks\<close> is that region after the initial call: as long as the pool is not empty a
  scheduler \<open>pick\<close> chooses one pending task, which is taken out of the pool and run.  The
  scheduler is an arbitrary function of the state, and the theorems below hold for every
  scheduler, hence for every order in which a team of any size may run the tasks.  The
  number of threads occurs nowhere in \<open>qSortPar\<close>; it only limits how many tasks run at
  once.

  A task is run as one step; two tasks that run at the same time on two threads are not
  interleaved access by access.  What the tasks touch is the reason why this loses nothing:
  a call of \<open>qSortPar\<close> reaches the array only through \<open>partition\<close>, every such call is
  on a part of the task's own range and changes no cell outside it (\<open>task_footprint\<close>),
  a call of \<open>partition\<close> makes no access outside the range it is given
  (\<open>partition_local\<close>), the ranges of the pending tasks are pairwise disjoint (part of
  the invariant \<open>pool_inv\<close>, kept by \<open>task_step\<close>), and a call that creates tasks does
  so after its last access to the array.
\<close>

definition remove_nth :: "nat \<Rightarrow> 'a list \<Rightarrow> 'a list" where
  "remove_nth k xs = take k xs @ drop (Suc k) xs"

partial_function (option) run_tasks :: "int \<Rightarrow> (state \<Rightarrow> nat) \<Rightarrow> state \<Rightarrow> state option" where
  "run_tasks cutoff pick s =
     (if pool s = [] then Some s
      else
        (let k = pick s mod length (pool s);
             (A, len) = pool s ! k
         in do {
              s' \<leftarrow> qSortPar cutoff (s\<lparr>pool := remove_nth k (pool s)\<rparr>) A len;
              run_tasks cutoff pick s'
            }))"

declare qSort.simps [code] qSortPar.simps [code] run_tasks.simps [code]

definition init_state :: "int list \<Rightarrow> state" where
  "init_state m = \<lparr>mem = m, plog = [], pool = []\<rparr>"

definition sort_sequential :: "int list \<Rightarrow> state option" where
  "sort_sequential m = qSort (init_state m) 0 (int (length m))"

definition sort_parallel :: "int \<Rightarrow> (state \<Rightarrow> nat) \<Rightarrow> int list \<Rightarrow> state option" where
  "sort_parallel cutoff pick m =
     do {
       s \<leftarrow> qSortPar cutoff (init_state m) 0 (int (length m));
       run_tasks cutoff pick s
     }"

text \<open>
  One pass of the loop of \<open>main\<close> (lines 58 to 131), for the test data \<open>data\<close> that the
  random generator wrote to \<open>A1\<close> and \<^verbatim>\<open>memcpy\<close> copied to \<open>A2\<close>.  \<open>thread_count\<close>
  and \<open>cutoff\<close> are the values that \<^verbatim>\<open>atoi\<close> returned (lines 41 and 43); \<open>main\<close>
  compares neither of them with anything.  It hands \<open>thread_count\<close> to the OpenMP runtime
  in the \<^verbatim>\<open>num_threads\<close> clause of the region that generates the data (line 61) and of
  the region that sorts (line 108), and stores \<open>cutoff\<close> for \<open>qSortPar\<close> to read.

  The runtime is not part of the program.  What it does when it is asked for \<open>n\<close> threads
  is the parameter \<open>team_starts\<close>: \<open>team_starts n\<close> holds when the runtime starts a team
  and runs the region, and fails when it ends the program instead.  In the second case the
  pass has no result.  Timing, printing and the repetition of the pass \<open>test_count\<close> times
  are left out.  The result is the pair of the states after the sequential and after the
  parallel sort.
\<close>

definition main_pass ::
    "(int \<Rightarrow> bool) \<Rightarrow> int \<Rightarrow> int \<Rightarrow> (state \<Rightarrow> nat) \<Rightarrow> int list \<Rightarrow> (state \<times> state) option" where
  "main_pass team_starts thread_count cutoff pick data =
     (if team_starts thread_count then
        do {
          s1 \<leftarrow> sort_sequential data;
          s2 \<leftarrow> sort_parallel cutoff pick data;
          Some (s1, s2)
        }
      else None)"

text \<open>
  Two runtimes for the examples: one that starts a team whatever it is asked for, and one
  that ends the program unless it is asked for a positive number of threads.
\<close>

definition team_any :: "int \<Rightarrow> bool" where
  "team_any n = True"

definition team_positive :: "int \<Rightarrow> bool" where
  "team_positive n = (0 < n)"

text \<open>A scheduler that always chooses the pending task at a fixed position (modulo the pool size).\<close>

definition pick_fixed :: "nat \<Rightarrow> state \<Rightarrow> nat" where
  "pick_fixed k s = k"

subsection \<open>Ranges and the invariant of the task pool\<close>

text \<open>\<open>slice m A len\<close> is the content of the range of \<open>len\<close> cells that starts at cell \<open>A\<close>.\<close>

definition slice :: "int list \<Rightarrow> int \<Rightarrow> int \<Rightarrow> int list" where
  "slice m A len = take (nat len) (drop (nat A) m)"

text \<open>
  Two ranges are disjoint when one ends before the other starts.  \<open>ordered_up_to m T\<close> says
  that any two cells of \<open>m\<close> are in order unless both lie in one range of \<open>T\<close>.  The pool
  invariant: the pending tasks are distinct, non-empty ranges inside the array, pairwise
  disjoint, and the array is ordered up to them.  \<open>weight\<close> decreases with every task that
  is run; \<open>budget\<close> bounds the number of partition operations still to come.
\<close>

definition range_disj :: "int \<times> int \<Rightarrow> int \<times> int \<Rightarrow> bool" where
  "range_disj t u \<longleftrightarrow> fst t + snd t \<le> fst u \<or> fst u + snd u \<le> fst t"

definition ordered_up_to :: "int list \<Rightarrow> (int \<times> int) set \<Rightarrow> bool" where
  "ordered_up_to m T \<longleftrightarrow>
     (\<forall>x y. 0 \<le> x \<and> x < y \<and> y < int (length m) \<longrightarrow>
        m ! nat x \<le> m ! nat y \<or> (\<exists>t\<in>T. fst t \<le> x \<and> y < fst t + snd t))"

definition pool_inv :: "state \<Rightarrow> bool" where
  "pool_inv s \<longleftrightarrow>
     distinct (pool s) \<and>
     (\<forall>t\<in>set (pool s). 0 \<le> fst t \<and> 1 \<le> snd t \<and> fst t + snd t \<le> int (length (mem s))) \<and>
     (\<forall>t\<in>set (pool s). \<forall>u\<in>set (pool s). t \<noteq> u \<longrightarrow> range_disj t u) \<and>
     ordered_up_to (mem s) (set (pool s))"

definition weight :: "(int \<times> int) list \<Rightarrow> nat" where
  "weight ts = sum_list (map (\<lambda>t. nat (2 * snd t - 1)) ts)"

definition slack :: "(int \<times> int) list \<Rightarrow> nat" where
  "slack ts = sum_list (map (\<lambda>t. nat (snd t - 1)) ts)"

definition budget :: "state \<Rightarrow> nat" where
  "budget s = length (plog s) + slack (pool s)"

section \<open>Properties of partition\<close>

lemma rd_in: "0 \<le> k \<Longrightarrow> k < int (length m) \<Longrightarrow> rd m k = Some (m ! nat k)"
  by (simp add: rd_def)

lemma wr_in: "0 \<le> k \<Longrightarrow> k < int (length m) \<Longrightarrow> wr m k v = Some (m[nat k := v])"
  by (simp add: wr_def)

text \<open>
  A scan stops at the latest at a cell that holds a value on the far side of the pivot: such
  a cell ahead of the cursor is what keeps the scan inside the range.
\<close>

lemma scan_up_spec:
  assumes "0 \<le> A + i" "i \<le> k" "A + k < int (length m)" "pivot \<le> m ! nat (A + k)"
  shows "\<exists>i'. scan_up m A pivot i = Some i' \<and> i \<le> i' \<and> i' \<le> k \<and> pivot \<le> m ! nat (A + i')
            \<and> (\<forall>q. i \<le> q \<and> q < i' \<longrightarrow> m ! nat (A + q) < pivot)"
  using assms
proof (induction m A pivot i rule: scan_up.induct)
  case (1 m A pivot i)
  have r: "rd m (A + i) = Some (m ! nat (A + i))"
    using "1.prems" by (intro rd_in) auto
  show ?case
  proof (cases "m ! nat (A + i) < pivot")
    case False
    then show ?thesis using r "1.prems" by (subst scan_up.simps) auto
  next
    case True
    with "1.prems" have ne: "i \<noteq> k" by auto
    with "1.prems" have "i + 1 \<le> k" by simp
    from "1.IH"[OF r True _ this "1.prems"(3,4)] "1.prems"(1)
    obtain i' where i': "scan_up m A pivot (i + 1) = Some i'" "i + 1 \<le> i'" "i' \<le> k"
      "pivot \<le> m ! nat (A + i')" "\<forall>q. i + 1 \<le> q \<and> q < i' \<longrightarrow> m ! nat (A + q) < pivot"
      by auto
    have "\<forall>q. i \<le> q \<and> q < i' \<longrightarrow> m ! nat (A + q) < pivot"
    proof (intro allI impI)
      fix q assume "i \<le> q \<and> q < i'"
      then have "q = i \<or> (i + 1 \<le> q \<and> q < i')" by auto
      then show "m ! nat (A + q) < pivot" using True i'(5) by auto
    qed
    moreover have "scan_up m A pivot i = Some i'"
      using r True i'(1) by (subst scan_up.simps) simp
    ultimately show ?thesis using i' by auto
  qed
qed

lemma scan_down_spec:
  assumes "A + j < int (length m)" "k \<le> j" "0 \<le> A + k" "m ! nat (A + k) \<le> pivot"
  shows "\<exists>j'. scan_down m A pivot j = Some j' \<and> j' \<le> j \<and> k \<le> j' \<and> m ! nat (A + j') \<le> pivot
            \<and> (\<forall>q. j' < q \<and> q \<le> j \<longrightarrow> pivot < m ! nat (A + q))"
  using assms
proof (induction m A pivot j rule: scan_down.induct)
  case (1 m A pivot j)
  have r: "rd m (A + j) = Some (m ! nat (A + j))"
    using "1.prems" by (intro rd_in) auto
  show ?case
  proof (cases "m ! nat (A + j) > pivot")
    case False
    then show ?thesis using r "1.prems" by (subst scan_down.simps) auto
  next
    case True
    with "1.prems" have ne: "j \<noteq> k" by auto
    with "1.prems" have "k \<le> j - 1" by simp
    from "1.IH"[OF r True _ this "1.prems"(3,4)] "1.prems"(1)
    obtain j' where j': "scan_down m A pivot (j - 1) = Some j'" "j' \<le> j - 1" "k \<le> j'"
      "m ! nat (A + j') \<le> pivot" "\<forall>q. j' < q \<and> q \<le> j - 1 \<longrightarrow> pivot < m ! nat (A + q)"
      by auto
    have "\<forall>q. j' < q \<and> q \<le> j \<longrightarrow> pivot < m ! nat (A + q)"
    proof (intro allI impI)
      fix q assume "j' < q \<and> q \<le> j"
      then have "q = j \<or> (j' < q \<and> q \<le> j - 1)" by auto
      then show "pivot < m ! nat (A + q)" using True j'(5) by auto
    qed
    moreover have "scan_down m A pivot j = Some j'"
      using r True j'(1) by (subst scan_down.simps) simp
    ultimately show ?thesis using j' by auto
  qed
qed

lemma swap_cells:
  assumes "0 \<le> x" "x < int (length m)" "0 \<le> y" "y < int (length m)"
  defines "m2 \<equiv> m[nat x := m ! nat y, nat y := m ! nat x]"
  shows "length m2 = length m" "mset m2 = mset m"
    "\<And>k. 0 \<le> k \<Longrightarrow> m2 ! nat k = (if k = y then m ! nat x else if k = x then m ! nat y else m ! nat k)"
proof -
  show "length m2 = length m" by (simp add: m2_def)
  show "mset m2 = mset m" unfolding m2_def
    using assms(1-4) by (intro mset_swap) auto
  fix k :: int assume "0 \<le> k"
  then show "m2 ! nat k = (if k = y then m ! nat x else if k = x then m ! nat y else m ! nat k)"
    using assms(1-4) by (auto simp: m2_def nth_list_update)
qed


text \<open>
  The invariant of the outer loop, for a range of \<open>L\<close> cells at \<open>A\<close>: everything left
  of \<open>i\<close> is at most the pivot, everything right of \<open>j\<close> is at least the pivot, there
  is a stopping cell for the upward scan at or after \<open>i\<close> and one for the downward scan
  at or before \<open>j\<close>, and either \<open>i\<close> has already moved or the downward scan has a
  stopping cell at a positive index.  Initially the midpoint cell, which holds the pivot,
  serves as all three stopping cells; after an exchange the two exchanged cells do.
\<close>

lemma partition_loop_spec:
  assumes "0 \<le> A" "A + L \<le> int (length m)" "0 \<le> i" "j < L"
    and lo: "\<forall>q. 0 \<le> q \<and> q < i \<longrightarrow> m ! nat (A + q) \<le> pivot"
    and hi: "\<forall>q. j < q \<and> q < L \<longrightarrow> pivot \<le> m ! nat (A + q)"
    and si: "\<exists>k. i \<le> k \<and> k < L \<and> pivot \<le> m ! nat (A + k)"
    and sj: "\<exists>k. 0 \<le> k \<and> k \<le> j \<and> m ! nat (A + k) \<le> pivot"
    and pr: "0 < i \<or> (\<exists>k. 0 < k \<and> k \<le> j \<and> m ! nat (A + k) \<le> pivot)"
  shows "\<exists>m' p. partition_loop m A pivot i j = Some (m', p) \<and> 0 < p \<and> p < L
           \<and> length m' = length m \<and> mset m' = mset m
           \<and> (\<forall>k. 0 \<le> k \<and> (k < A \<or> A + L \<le> k) \<longrightarrow> m' ! nat k = m ! nat k)
           \<and> (\<forall>q. 0 \<le> q \<and> q < p \<longrightarrow> m' ! nat (A + q) \<le> pivot)
           \<and> (\<forall>q. p \<le> q \<and> q < L \<longrightarrow> pivot \<le> m' ! nat (A + q))"
  using assms
proof (induction m A pivot i j rule: partition_loop.induct)
  case (1 m A pivot i j)
  from "1.prems"(7) obtain ki where ki: "i \<le> ki" "ki < L" "pivot \<le> m ! nat (A + ki)" by blast
  from "1.prems"(8) obtain kj where kj: "0 \<le> kj" "kj \<le> j" "m ! nat (A + kj) \<le> pivot" by blast
  from scan_up_spec[of A i ki m pivot] ki "1.prems"(1-3)
  obtain i' where i': "scan_up m A pivot i = Some i'" "i \<le> i'" "i' \<le> ki"
    "pivot \<le> m ! nat (A + i')" "\<forall>q. i \<le> q \<and> q < i' \<longrightarrow> m ! nat (A + q) < pivot"
    by auto
  from scan_down_spec[of A j m kj pivot] kj "1.prems"(1,2,4)
  obtain j' where j': "scan_down m A pivot j = Some j'" "j' \<le> j" "kj \<le> j'"
    "m ! nat (A + j') \<le> pivot" "\<forall>q. j' < q \<and> q \<le> j \<longrightarrow> pivot < m ! nat (A + q)"
    by auto
  have lo': "\<forall>q. 0 \<le> q \<and> q < i' \<longrightarrow> m ! nat (A + q) \<le> pivot"
  proof (intro allI impI)
    fix q assume q: "0 \<le> q \<and> q < i'"
    show "m ! nat (A + q) \<le> pivot"
    proof (cases "q < i")
      case True with q "1.prems"(5) show ?thesis by blast
    next
      case False with q i'(5) have "m ! nat (A + q) < pivot" by auto
      then show ?thesis by simp
    qed
  qed
  have hi': "\<forall>q. j' < q \<and> q < L \<longrightarrow> pivot \<le> m ! nat (A + q)"
  proof (intro allI impI)
    fix q assume q: "j' < q \<and> q < L"
    show "pivot \<le> m ! nat (A + q)"
    proof (cases "j < q")
      case True with q "1.prems"(6) show ?thesis by blast
    next
      case False with q j'(5) have "pivot < m ! nat (A + q)" by auto
      then show ?thesis by simp
    qed
  qed
  have j'pos: "0 < i \<or> 0 < j'"
  proof -
    from "1.prems"(9) show ?thesis
    proof
      assume "0 < i" then show ?thesis ..
    next
      assume "\<exists>k. 0 < k \<and> k \<le> j \<and> m ! nat (A + k) \<le> pivot"
      then obtain k where k: "0 < k" "k \<le> j" "m ! nat (A + k) \<le> pivot" by blast
      from scan_down_spec[of A j m k pivot] k "1.prems"(1,2,4) j'(1)
      have "k \<le> j'" by auto
      with k show ?thesis by simp
    qed
  qed
  show ?case
  proof (cases "i' \<ge> j'")
    case True
    have eq: "partition_loop m A pivot i j = Some (m, i')"
      using i'(1) j'(1) True by (subst partition_loop.simps) simp
    have p0: "0 < i'" using j'pos i'(2) True by auto
    have pL: "i' < L" using i'(3) ki(2) by simp
    have "\<forall>q. i' \<le> q \<and> q < L \<longrightarrow> pivot \<le> m ! nat (A + q)"
    proof (intro allI impI)
      fix q assume q: "i' \<le> q \<and> q < L"
      show "pivot \<le> m ! nat (A + q)"
      proof (cases "q = i'")
        case True with i'(4) show ?thesis by simp
      next
        case False with q True \<open>i' \<ge> j'\<close> have "j' < q \<and> q < L" by simp
        with hi' show ?thesis by blast
      qed
    qed
    with eq p0 pL lo' show ?thesis by simp
  next
    case False
    then have lt: "i' < j'" by simp
    have bi: "0 \<le> A + i'" "A + i' < int (length m)"
      using "1.prems"(1-3) i'(2,3) ki(2) by auto
    have bj: "0 \<le> A + j'" "A + j' < int (length m)"
      using "1.prems"(1,2,4) j'(2,3) kj(1) by auto
    define m2 where "m2 = m[nat (A + i') := m ! nat (A + j'), nat (A + j') := m ! nat (A + i')]"
    note sw = swap_cells[OF bi bj, folded m2_def]
    have r1: "rd m (A + i') = Some (m ! nat (A + i'))" using bi by (rule rd_in)
    have r2: "rd m (A + j') = Some (m ! nat (A + j'))" using bj by (rule rd_in)
    have w1: "wr m (A + i') (m ! nat (A + j')) = Some (m[nat (A + i') := m ! nat (A + j')])"
      using bi by (rule wr_in)
    have w2: "wr (m[nat (A + i') := m ! nat (A + j')]) (A + j') (m ! nat (A + i')) = Some m2"
      unfolding m2_def using bj by (intro wr_in) auto
    have eq: "partition_loop m A pivot i j = partition_loop m2 A pivot (i' + 1) (j' - 1)"
      using i'(1) j'(1) False r1 r2 w1 w2 by (subst partition_loop.simps) simp
    have cell: "m2 ! nat (A + q) = (if q = j' then m ! nat (A + i') else if q = i' then m ! nat (A + j') else m ! nat (A + q))"
      if "0 \<le> q" for q
      using sw(3)[of "A + q"] that "1.prems"(1) by simp
    have P1: "A + L \<le> int (length m2)" using sw(1) "1.prems"(2) by simp
    have P2: "0 \<le> i' + 1" using i'(2) "1.prems"(3) by simp
    have P3: "j' - 1 < L" using j'(2) "1.prems"(4) by simp
    have P4: "\<forall>q. 0 \<le> q \<and> q < i' + 1 \<longrightarrow> m2 ! nat (A + q) \<le> pivot"
    proof (intro allI impI)
      fix q assume q: "0 \<le> q \<and> q < i' + 1"
      then have "q \<noteq> j'" using lt by simp
      show "m2 ! nat (A + q) \<le> pivot"
      proof (cases "q = i'")
        case True then show ?thesis using cell[of q] q \<open>q \<noteq> j'\<close> j'(4) by simp
      next
        case False
        with q have "0 \<le> q \<and> q < i'" by simp
        with lo' have "m ! nat (A + q) \<le> pivot" by blast
        then show ?thesis using cell[of q] q \<open>q \<noteq> j'\<close> False by simp
      qed
    qed
    have P5: "\<forall>q. j' - 1 < q \<and> q < L \<longrightarrow> pivot \<le> m2 ! nat (A + q)"
    proof (intro allI impI)
      fix q assume q: "j' - 1 < q \<and> q < L"
      then have q0: "0 \<le> q" "q \<noteq> i'" using lt i'(2) "1.prems"(3) by auto
      show "pivot \<le> m2 ! nat (A + q)"
      proof (cases "q = j'")
        case True then show ?thesis using cell[of q] q0 i'(4) by simp
      next
        case False
        with q have "j' < q \<and> q < L" by simp
        with hi' have "pivot \<le> m ! nat (A + q)" by blast
        then show ?thesis using cell[of q] q0 False by simp
      qed
    qed
    have j'0: "0 \<le> j'" using kj(1) j'(3) by simp
    have P6: "\<exists>k. i' + 1 \<le> k \<and> k < L \<and> pivot \<le> m2 ! nat (A + k)"
    proof (intro exI conjI)
      show "i' + 1 \<le> j'" using lt by simp
      show "j' < L" using j'(2) "1.prems"(4) by simp
      show "pivot \<le> m2 ! nat (A + j')" using cell[of j'] j'0 i'(4) by simp
    qed
    have i'0: "0 \<le> i'" using i'(2) "1.prems"(3) by simp
    have P7: "\<exists>k. 0 \<le> k \<and> k \<le> j' - 1 \<and> m2 ! nat (A + k) \<le> pivot"
    proof (intro exI conjI)
      show "0 \<le> i'" by (rule i'0)
      show "i' \<le> j' - 1" using lt by simp
      show "m2 ! nat (A + i') \<le> pivot" using cell[of i'] i'0 lt j'(4) by simp
    qed
    have P8: "0 < i' + 1 \<or> (\<exists>k. 0 < k \<and> k \<le> j' - 1 \<and> m2 ! nat (A + k) \<le> pivot)"
      using i'0 by simp
    from "1.IH"[OF i'(1) j'(1) False r1 r2 w1 w2 "1.prems"(1) P1 P2 P3 P4 P5 P6 P7 P8]
    obtain m' p where res: "partition_loop m2 A pivot (i' + 1) (j' - 1) = Some (m', p)"
      "0 < p" "p < L" "length m' = length m2" "mset m' = mset m2"
      "\<forall>k. 0 \<le> k \<and> (k < A \<or> A + L \<le> k) \<longrightarrow> m' ! nat k = m2 ! nat k"
      "\<forall>q. 0 \<le> q \<and> q < p \<longrightarrow> m' ! nat (A + q) \<le> pivot"
      "\<forall>q. p \<le> q \<and> q < L \<longrightarrow> pivot \<le> m' ! nat (A + q)"
      by blast
    have frame: "\<forall>k. 0 \<le> k \<and> (k < A \<or> A + L \<le> k) \<longrightarrow> m' ! nat k = m ! nat k"
    proof (intro allI impI)
      fix k assume k: "0 \<le> k \<and> (k < A \<or> A + L \<le> k)"
      then have "k \<noteq> A + i'" "k \<noteq> A + j'"
        using i'0 j'0 i'(3) ki(2) j'(2) "1.prems"(4) by auto
      then have "m2 ! nat k = m ! nat k" using sw(3)[of k] k by simp
      with res(6) k show "m' ! nat k = m ! nat k" by simp
    qed
    show ?thesis
      using eq res(1-5,7,8) frame sw(1,2) by simp
  qed
qed

lemma sdiv2: "0 \<le> (L::int) \<Longrightarrow> L sdiv 2 = L div 2"
  by (simp add: signed_divide_int_def sgn_if)

lemma partition_spec:
  assumes "0 \<le> A" "2 \<le> L" "A + L \<le> int (length m)"
  shows "\<exists>m' p pivot. partition_arr m A L = Some (m', p) \<and> 0 < p \<and> p < L
           \<and> length m' = length m \<and> mset m' = mset m
           \<and> (\<forall>k. 0 \<le> k \<and> (k < A \<or> A + L \<le> k) \<longrightarrow> m' ! nat k = m ! nat k)
           \<and> (\<forall>q. 0 \<le> q \<and> q < p \<longrightarrow> m' ! nat (A + q) \<le> pivot)
           \<and> (\<forall>q. p \<le> q \<and> q < L \<longrightarrow> pivot \<le> m' ! nat (A + q))"
proof -
  define h where "h = L div 2"
  have h: "0 < h" "h < L" "h \<le> L - 1" using assms(2) by (auto simp: h_def)
  define pivot where "pivot = m ! nat (A + h)"
  have r: "rd m (A + L sdiv 2) = Some pivot"
    using assms h by (simp add: sdiv2 h_def[symmetric] pivot_def rd_in)
  have eq: "partition_arr m A L = partition_loop m A pivot 0 (L - 1)"
    using r by (simp add: partition_arr_def)
  have "\<exists>m' p. partition_loop m A pivot 0 (L - 1) = Some (m', p) \<and> 0 < p \<and> p < L
           \<and> length m' = length m \<and> mset m' = mset m
           \<and> (\<forall>k. 0 \<le> k \<and> (k < A \<or> A + L \<le> k) \<longrightarrow> m' ! nat k = m ! nat k)
           \<and> (\<forall>q. 0 \<le> q \<and> q < p \<longrightarrow> m' ! nat (A + q) \<le> pivot)
           \<and> (\<forall>q. p \<le> q \<and> q < L \<longrightarrow> pivot \<le> m' ! nat (A + q))"
  proof (rule partition_loop_spec[OF assms(1,3)])
    show "(0::int) \<le> 0" by simp
    show "L - 1 < L" by simp
    show "\<forall>q. 0 \<le> q \<and> q < 0 \<longrightarrow> m ! nat (A + q) \<le> pivot" by simp
    show "\<forall>q. L - 1 < q \<and> q < L \<longrightarrow> pivot \<le> m ! nat (A + q)" by simp
    show "\<exists>k. 0 \<le> k \<and> k < L \<and> pivot \<le> m ! nat (A + k)"
      using h by (intro exI[of _ h]) (simp add: pivot_def)
    show "\<exists>k. 0 \<le> k \<and> k \<le> L - 1 \<and> m ! nat (A + k) \<le> pivot"
      using h by (intro exI[of _ h]) (simp add: pivot_def)
    show "(0::int) < 0 \<or> (\<exists>k. 0 < k \<and> k \<le> L - 1 \<and> m ! nat (A + k) \<le> pivot)"
      using h by (intro disjI2 exI[of _ h]) (simp add: pivot_def)
  qed
  with eq show ?thesis by auto
qed

section \<open>Ranges\<close>

lemma length_slice: "0 \<le> A \<Longrightarrow> A + L \<le> int (length m) \<Longrightarrow> length (slice m A L) = nat L"
  by (auto simp: slice_def)

lemma slice_nth:
  "0 \<le> A \<Longrightarrow> A + L \<le> int (length m) \<Longrightarrow> n < nat L \<Longrightarrow> slice m A L ! n = m ! nat (A + int n)"
  by (simp add: slice_def nat_add_distrib)

lemma slice_eqI:
  assumes "0 \<le> A" "A + L \<le> int (length m)" "length m' = length m"
    and "\<forall>q. 0 \<le> q \<and> q < L \<longrightarrow> m' ! nat (A + q) = m ! nat (A + q)"
  shows "slice m' A L = slice m A L"
proof (rule nth_equalityI)
  show "length (slice m' A L) = length (slice m A L)"
    using assms(1-3) by (simp add: length_slice)
  fix n assume "n < length (slice m' A L)"
  then have n: "n < nat L" using assms(1-3) by (simp add: length_slice)
  then have "m' ! nat (A + int n) = m ! nat (A + int n)" using assms(4) by auto
  then show "slice m' A L ! n = slice m A L ! n"
    using assms(1-3) n by (simp add: slice_nth)
qed

lemma slice_split:
  assumes "0 \<le> A" "0 \<le> p" "p \<le> L"
  shows "slice m A L = slice m A p @ slice m (A + p) (L - p)"
proof -
  have "nat L = nat p + nat (L - p)" using assms by simp
  moreover have "nat (A + p) = nat p + nat A" using assms by simp
  ultimately show ?thesis
    by (simp add: slice_def take_add drop_drop del: drop_drop[symmetric])
qed

lemma slice_whole: "slice m 0 (int (length m)) = m"
  by (simp add: slice_def)

lemma slice_Ball:
  assumes "0 \<le> A" "A + L \<le> int (length m)"
    and "\<forall>q. 0 \<le> q \<and> q < L \<longrightarrow> P (m ! nat (A + q))"
  shows "\<forall>x\<in>set (slice m A L). P x"
proof
  fix x assume "x \<in> set (slice m A L)"
  then obtain n where n: "n < length (slice m A L)" "x = slice m A L ! n"
    by (auto simp: in_set_conv_nth)
  then have "n < nat L" using assms(1,2) by (simp add: length_slice)
  then show "P x" using n(2) assms by (simp add: slice_nth)
qed

lemma mset_slice_frame:
  assumes "0 \<le> A" "0 \<le> L" "A + L \<le> int (length m)" "length m' = length m" "mset m' = mset m"
    and fr: "\<forall>k. 0 \<le> k \<and> (k < A \<or> A + L \<le> k) \<longrightarrow> m' ! nat k = m ! nat k"
  shows "mset (slice m' A L) = mset (slice m A L)"
proof -
  let ?N = "int (length m)"
  have split: "x = slice x 0 A @ slice x A L @ slice x (A + L) (?N - (A + L))" if "length x = length m" for x
  proof -
    have "slice x 0 ?N = slice x 0 (A + L) @ slice x (0 + (A + L)) (?N - (A + L))"
      using assms(1-3) by (intro slice_split) auto
    also have "slice x 0 (A + L) = slice x 0 A @ slice x (0 + A) (A + L - A)"
      using assms(1-3) by (intro slice_split) auto
    finally show ?thesis using that slice_whole[of x] by simp
  qed
  have a: "slice m' 0 A = slice m 0 A"
    using assms(1-4) fr by (intro slice_eqI) auto
  have b: "slice m' (A + L) (?N - (A + L)) = slice m (A + L) (?N - (A + L))"
    using assms(1-4) fr by (intro slice_eqI) auto
  have "mset m' = mset (slice m' 0 A) + mset (slice m' A L) + mset (slice m' (A + L) (?N - (A + L)))"
    using split[OF assms(4)] by (metis mset_append add.assoc)
  moreover have "mset m = mset (slice m 0 A) + mset (slice m A L) + mset (slice m (A + L) (?N - (A + L)))"
    using split[OF refl] by (metis mset_append add.assoc)
  ultimately show ?thesis using assms(5) a b by simp
qed

section \<open>The sequential sorter\<close>

text \<open>
  The contract of \<open>qSort\<close> on a range inside the array, by induction on the length of
  the range: it returns, the range is sorted, the array is a permutation of what it was and
  is unchanged outside the range, the pool is untouched, at most \<open>L - 1\<close> partition
  operations were made, and each was made on a part of the range.
\<close>

lemma qSort_spec:
  assumes "0 \<le> A" "A + L \<le> int (length (mem s))"
  shows "\<exists>s'. qSort s A L = Some s' \<and> length (mem s') = length (mem s) \<and> mset (mem s') = mset (mem s)
           \<and> (\<forall>k. 0 \<le> k \<and> (k < A \<or> A + L \<le> k) \<longrightarrow> mem s' ! nat k = mem s ! nat k)
           \<and> sorted (slice (mem s') A L) \<and> pool s' = pool s
           \<and> length (plog s') \<le> length (plog s) + nat (L - 1)
           \<and> (\<exists>lg. plog s' = plog s @ lg \<and> (\<forall>t\<in>set lg. A \<le> fst t \<and> fst t + snd t \<le> A + L))"
  using assms
proof (induction "nat L" arbitrary: s A L rule: less_induct)
  case less
  show ?case
  proof (cases "L > 1")
    case False
    then have "qSort s A L = Some s" by (subst qSort.simps) simp
    moreover have "length (slice (mem s) A L) \<le> 1" using False by (simp add: slice_def)
    then have "sorted (slice (mem s) A L)" by (rule sorted01)
    ultimately show ?thesis by simp
  next
    case True
    then have L2: "2 \<le> L" by simp
    from partition_spec[OF less.prems(1) L2 less.prems(2)]
    obtain m' p pivot where P: "partition_arr (mem s) A L = Some (m', p)" "0 < p" "p < L"
      "length m' = length (mem s)" "mset m' = mset (mem s)"
      "\<forall>k. 0 \<le> k \<and> (k < A \<or> A + L \<le> k) \<longrightarrow> m' ! nat k = mem s ! nat k"
      "\<forall>q. 0 \<le> q \<and> q < p \<longrightarrow> m' ! nat (A + q) \<le> pivot"
      "\<forall>q. p \<le> q \<and> q < L \<longrightarrow> pivot \<le> m' ! nat (A + q)"
      by blast
    define s0 where "s0 = s\<lparr>mem := m', plog := plog s @ [(A, L)]\<rparr>"
    have s0: "mem s0 = m'" "pool s0 = pool s" "length (plog s0) = Suc (length (plog s))"
      "plog s0 = plog s @ [(A, L)]"
      by (simp_all add: s0_def)
    have "nat p < nat L" using P(2,3) by simp
    from less.hyps[OF this less.prems(1), of s0] P(3,4) less.prems(2) s0(1,2,3)
    obtain s1 lg1 where S1: "qSort s0 A p = Some s1" "length (mem s1) = length m'" "mset (mem s1) = mset m'"
      "\<forall>k. 0 \<le> k \<and> (k < A \<or> A + p \<le> k) \<longrightarrow> mem s1 ! nat k = m' ! nat k"
      "sorted (slice (mem s1) A p)" "pool s1 = pool s"
      "length (plog s1) \<le> Suc (length (plog s)) + nat (p - 1)"
      "plog s1 = plog s0 @ lg1" "\<forall>t\<in>set lg1. A \<le> fst t \<and> fst t + snd t \<le> A + p"
      by auto
    have "nat (L - p) < nat L" using P(2,3) by simp
    from less.hyps[OF this, of "A + p" s1] P(2,4) less.prems S1(2)
    obtain s2 lg2 where S2: "qSort s1 (A + p) (L - p) = Some s2" "length (mem s2) = length (mem s1)"
      "mset (mem s2) = mset (mem s1)"
      "\<forall>k. 0 \<le> k \<and> (k < A + p \<or> A + L \<le> k) \<longrightarrow> mem s2 ! nat k = mem s1 ! nat k"
      "sorted (slice (mem s2) (A + p) (L - p))" "pool s2 = pool s1"
      "length (plog s2) \<le> length (plog s1) + nat (L - p - 1)"
      "plog s2 = plog s1 @ lg2" "\<forall>t\<in>set lg2. A + p \<le> fst t \<and> fst t + snd t \<le> A + L"
      by auto
    have eq: "qSort s A L = Some s2"
      using True P(1) S1(1) S2(1) by (subst qSort.simps) (simp add: s0_def)
    have bnd: "A + p \<le> int (length m')" "A + p + (L - p) \<le> int (length (mem s1))"
      using P(3,4) S1(2) less.prems(2) by auto
    have left_eq: "slice (mem s2) A p = slice (mem s1) A p"
      using less.prems(1) bnd(1) S1(2) S2(2,4) P(2) by (intro slice_eqI) auto
    have "mset (slice (mem s1) A p) = mset (slice m' A p)"
      using less.prems(1) P(2) bnd(1) S1(2,3,4) by (intro mset_slice_frame) auto
    then have left_set: "set (slice (mem s2) A p) = set (slice m' A p)"
      using left_eq by (metis set_mset_mset)
    have "mset (slice (mem s2) (A + p) (L - p)) = mset (slice (mem s1) (A + p) (L - p))"
      using less.prems(1) P(2,3) bnd(2) S2(2,3,4) by (intro mset_slice_frame) auto
    moreover have "slice (mem s1) (A + p) (L - p) = slice m' (A + p) (L - p)"
      using less.prems(1) P(2,3,4) less.prems(2) S1(2,4) by (intro slice_eqI) auto
    ultimately have right_set: "set (slice (mem s2) (A + p) (L - p)) = set (slice m' (A + p) (L - p))"
      by (metis set_mset_mset)
    have lle: "\<forall>x\<in>set (slice m' A p). x \<le> pivot"
      using less.prems(1) bnd(1) P(7) by (intro slice_Ball) auto
    have "\<forall>q. 0 \<le> q \<and> q < L - p \<longrightarrow> pivot \<le> m' ! nat (A + p + q)"
    proof (intro allI impI)
      fix q assume "0 \<le> q \<and> q < L - p"
      then have "p \<le> p + q \<and> p + q < L" by simp
      with P(8) have "pivot \<le> m' ! nat (A + (p + q))" by blast
      then show "pivot \<le> m' ! nat (A + p + q)" by (simp add: add.assoc)
    qed
    then have rge: "\<forall>x\<in>set (slice m' (A + p) (L - p)). pivot \<le> x"
      using less.prems P(2,3,4) by (intro slice_Ball) auto
    have "slice (mem s2) A L = slice (mem s2) A p @ slice (mem s2) (A + p) (L - p)"
      using less.prems(1) P(2,3) by (intro slice_split) auto
    moreover have "\<forall>x\<in>set (slice (mem s2) A p). \<forall>y\<in>set (slice (mem s2) (A + p) (L - p)). x \<le> y"
      unfolding left_set right_set using lle rge by force
    ultimately have srt: "sorted (slice (mem s2) A L)"
      using S1(5) S2(5) left_eq by (simp add: sorted_append)
    have frame: "\<forall>k. 0 \<le> k \<and> (k < A \<or> A + L \<le> k) \<longrightarrow> mem s2 ! nat k = mem s ! nat k"
    proof (intro allI impI)
      fix k assume k: "0 \<le> k \<and> (k < A \<or> A + L \<le> k)"
      then have "mem s2 ! nat k = mem s1 ! nat k" using S2(4) P(2,3) by auto
      also have "\<dots> = m' ! nat k" using S1(4) k P(2,3) by auto
      also have "\<dots> = mem s ! nat k" using P(6) k by auto
      finally show "mem s2 ! nat k = mem s ! nat k" .
    qed
    have cnt: "length (plog s2) \<le> length (plog s) + nat (L - 1)"
      using S1(7) S2(7) P(2,3) by linarith
    have "plog s2 = plog s @ ((A, L) # lg1 @ lg2)"
      using S1(8) S2(8) s0(4) by simp
    moreover have "\<forall>t\<in>set ((A, L) # lg1 @ lg2). A \<le> fst t \<and> fst t + snd t \<le> A + L"
      using S1(9) S2(9) P(2,3) by fastforce
    ultimately have lg: "\<exists>lg. plog s2 = plog s @ lg \<and> (\<forall>t\<in>set lg. A \<le> fst t \<and> fst t + snd t \<le> A + L)"
      by blast
    show ?thesis
      using eq srt frame cnt lg S1(2,3,6) S2(2,3,6) P(4,5) by simp
  qed
qed


lemma qSortPar_below_cutoff:
  assumes "L < cutoff" "0 \<le> A" "A + L \<le> int (length (mem s))"
  shows "qSortPar cutoff s A L = qSort s A L"
  using assms
proof (induction "nat L" arbitrary: s A L rule: less_induct)
  case less
  show ?case
  proof (cases "L > 1")
    case False
    then show ?thesis by (subst qSortPar.simps, subst qSort.simps) simp
  next
    case True
    then have L2: "2 \<le> L" by simp
    from partition_spec[OF less.prems(2) L2 less.prems(3)]
    obtain m' p where P: "partition_arr (mem s) A L = Some (m', p)" "0 < p" "p < L"
      "length m' = length (mem s)"
      by blast
    define s0 where "s0 = s\<lparr>mem := m', plog := plog s @ [(A, L)]\<rparr>"
    have s0: "mem s0 = m'" by (simp add: s0_def)
    have b0: "A + p \<le> int (length (mem s0))" using P(3,4) less.prems(3) s0 by simp
    have n1: "nat p < nat L" using P(2,3) by simp
    have e1: "qSortPar cutoff s0 A p = qSort s0 A p"
      using less.hyps[OF n1 _ less.prems(2) b0] P(3) less.prems(1) by simp
    from qSort_spec[OF less.prems(2) b0]
    obtain s1 where S1: "qSort s0 A p = Some s1" "length (mem s1) = length (mem s0)" by blast
    have n2: "nat (L - p) < nat L" using P(2,3) by simp
    have c2: "L - p < cutoff" "0 \<le> A + p" "A + p + (L - p) \<le> int (length (mem s1))"
      using P(2,4) less.prems S1(2) s0 by auto
    have e2: "qSortPar cutoff s1 (A + p) (L - p) = qSort s1 (A + p) (L - p)"
      by (rule less.hyps[OF n2 c2])
    have "qSortPar cutoff s A L = qSort s1 (A + p) (L - p)"
      using True P(1) less.prems(1) e1 e2 S1(1) by (subst qSortPar.simps) (simp add: s0_def)
    moreover have "qSort s A L = qSort s1 (A + p) (L - p)"
      using True P(1) S1(1) by (subst qSort.simps) (simp add: s0_def)
    ultimately show ?thesis by simp
  qed
qed

lemma qSortPar_fork:
  assumes "1 < L" "\<not> L < cutoff" "partition_arr (mem s) A L = Some (m', p)"
  shows "qSortPar cutoff s A L =
           Some (s\<lparr>mem := m', plog := plog s @ [(A, L)], pool := pool s @ [(A, p), (A + p, L - p)]\<rparr>)"
  using assms by (subst qSortPar.simps) simp

section \<open>The task pool\<close>

lemma inside_val:
  assumes "0 \<le> A" "0 \<le> L" "A + L \<le> int (length m)" "length m' = length m"
    and "mset m' = mset (m :: int list)"
    and fr: "\<forall>k. 0 \<le> k \<and> (k < A \<or> A + L \<le> k) \<longrightarrow> m' ! nat k = m ! nat k"
    and x: "A \<le> x" "x < A + L"
  shows "\<exists>x'. A \<le> x' \<and> x' < A + L \<and> m' ! nat x = m ! nat x'"
proof -
  have ms: "mset (slice m' A L) = mset (slice m A L)"
    using assms(1-5) fr by (rule mset_slice_frame)
  have b': "A + L \<le> int (length m')" using assms(3,4) by simp
  have n: "nat (x - A) < nat L" using x by simp
  have "slice m' A L ! nat (x - A) = m' ! nat x"
    using slice_nth[OF assms(1) b' n] x by simp
  moreover have "slice m' A L ! nat (x - A) \<in> set (slice m' A L)"
    using n length_slice[OF assms(1) b'] by (intro nth_mem) simp
  ultimately have "m' ! nat x \<in> set (slice m A L)"
    using ms by (metis set_mset_mset)
  then obtain k where k: "k < length (slice m A L)" "m' ! nat x = slice m A L ! k"
    by (auto simp: in_set_conv_nth)
  then have kL: "k < nat L" using length_slice[OF assms(1,3)] by simp
  then have "m' ! nat x = m ! nat (A + int k)"
    using k(2) slice_nth[OF assms(1,3)] by simp
  moreover have "A \<le> A + int k" "A + int k < A + L" using kL by auto
  ultimately show ?thesis by blast
qed

text \<open>
  Running one task keeps the array ordered up to the pending tasks: the cells of the task's
  range keep their multiset of values and the other cells their values, so a cell inside
  and a cell outside compare as some pair did before, and no other pending range reaches into
  the task's range.
\<close>

lemma order_transfer:
  assumes ord: "ordered_up_to m (insert (A, L) R)"
    and dj: "\<forall>u\<in>R. range_disj (A, L) u"
    and rng: "0 \<le> A" "1 \<le> L" "A + L \<le> int (length m)"
    and len: "length m' = length m" and ms: "mset m' = mset m"
    and fr: "\<forall>k. 0 \<le> k \<and> (k < A \<or> A + L \<le> k) \<longrightarrow> m' ! nat k = m ! nat k"
    and inside: "\<forall>x y. A \<le> x \<and> x < y \<and> y < A + L \<longrightarrow>
                   m' ! nat x \<le> m' ! nat y \<or> (\<exists>t\<in>T. fst t \<le> x \<and> y < fst t + snd t)"
  shows "ordered_up_to m' (R \<union> T)"
  unfolding ordered_up_to_def
proof (intro allI impI)
  fix x y assume xy: "0 \<le> x \<and> x < y \<and> y < int (length m')"
  have L0: "0 \<le> L" using rng(2) by simp
  note iv = inside_val[OF rng(1) L0 rng(3) len ms fr]
  have old: "m ! nat x' \<le> m ! nat y' \<or> (\<exists>t\<in>R. fst t \<le> x' \<and> y' < fst t + snd t)"
    if "0 \<le> x'" "x' < y'" "y' < int (length m)" "\<not> (A \<le> x' \<and> y' < A + L)" for x' y'
    using ord that unfolding ordered_up_to_def by fastforce
  have nocross: False if "u \<in> R" "fst u \<le> z" "z < fst u + snd u" "A \<le> z" "z < A + L" for u z
    using dj that unfolding range_disj_def by fastforce
  let ?inx = "A \<le> x \<and> x < A + L" and ?iny = "A \<le> y \<and> y < A + L"
  show "m' ! nat x \<le> m' ! nat y \<or> (\<exists>t\<in>R \<union> T. fst t \<le> x \<and> y < fst t + snd t)"
  proof (cases ?inx)
    case inx: True
    show ?thesis
    proof (cases ?iny)
      case True
      with inx xy inside show ?thesis by blast
    next
      case False
      with xy inx have yout: "A + L \<le> y" by simp
      from iv[of x] inx obtain x' where x': "A \<le> x'" "x' < A + L" "m' ! nat x = m ! nat x'" by blast
      have "m' ! nat y = m ! nat y" using fr yout xy by simp
      moreover have "m ! nat x' \<le> m ! nat y"
      proof -
        from old[of x' y] x' yout xy len rng(1)
        have "m ! nat x' \<le> m ! nat y \<or> (\<exists>t\<in>R. fst t \<le> x' \<and> y < fst t + snd t)" by simp
        then show ?thesis
        proof
          assume "\<exists>t\<in>R. fst t \<le> x' \<and> y < fst t + snd t"
          then obtain t where t: "t \<in> R" "fst t \<le> x'" "y < fst t + snd t" by blast
          with nocross[of t x'] x' yout show ?thesis by simp
        qed
      qed
      ultimately show ?thesis using x'(3) by simp
    qed
  next
    case xout: False
    show ?thesis
    proof (cases ?iny)
      case True
      with xy xout have xlt: "x < A" by simp
      from iv[of y] True obtain y' where y': "A \<le> y'" "y' < A + L" "m' ! nat y = m ! nat y'" by blast
      have "m' ! nat x = m ! nat x" using fr xlt xy by simp
      moreover have "m ! nat x \<le> m ! nat y'"
      proof -
        from old[of x y'] y' xlt xy len rng(3)
        have "m ! nat x \<le> m ! nat y' \<or> (\<exists>t\<in>R. fst t \<le> x \<and> y' < fst t + snd t)" by simp
        then show ?thesis
        proof
          assume "\<exists>t\<in>R. fst t \<le> x \<and> y' < fst t + snd t"
          then obtain t where t: "t \<in> R" "fst t \<le> x" "y' < fst t + snd t" by blast
          with nocross[of t y'] y' xlt show ?thesis by simp
        qed
      qed
      ultimately show ?thesis using y'(3) by simp
    next
      case yout: False
      have ex: "m' ! nat x = m ! nat x" using fr xout xy by auto
      have ey: "m' ! nat y = m ! nat y" using fr yout xy by auto
      have "\<not> (A \<le> x \<and> y < A + L)" using xout xy by auto
      from old[OF _ _ _ this] xy len
      have "m ! nat x \<le> m ! nat y \<or> (\<exists>t\<in>R. fst t \<le> x \<and> y < fst t + snd t)" by simp
      then show ?thesis using ex ey by auto
    qed
  qed
qed


lemma pool_remove:
  assumes "distinct P" "k < length P" "P ! k = t"
  shows "set P = insert t (set (remove_nth k P))" "t \<notin> set (remove_nth k P)"
    "distinct (remove_nth k P)" "weight P = weight (remove_nth k P) + nat (2 * snd t - 1)"
    "slack P = slack (remove_nth k P) + nat (snd t - 1)"
proof -
  have P: "P = take k P @ t # drop (Suc k) P"
    using assms(2,3) id_take_nth_drop by blast
  have d: "distinct (take k P @ t # drop (Suc k) P)" using assms(1) P by simp
  show "set P = insert t (set (remove_nth k P))"
    by (subst P) (auto simp: remove_nth_def)
  show "t \<notin> set (remove_nth k P)" using d by (auto simp: remove_nth_def)
  show "distinct (remove_nth k P)" using d by (auto simp: remove_nth_def)
  have "weight P = weight (take k P @ t # drop (Suc k) P)" using P by simp
  also have "\<dots> = weight (remove_nth k P) + nat (2 * snd t - 1)"
    by (simp add: weight_def remove_nth_def)
  finally show "weight P = weight (remove_nth k P) + nat (2 * snd t - 1)" .
  have "slack P = slack (take k P @ t # drop (Suc k) P)" using P by simp
  also have "\<dots> = slack (remove_nth k P) + nat (snd t - 1)"
    by (simp add: slack_def remove_nth_def)
  finally show "slack P = slack (remove_nth k P) + nat (snd t - 1)" .
qed

lemma qSortPar_small: "\<not> 1 < L \<Longrightarrow> qSortPar cutoff s A L = Some s"
  by (subst qSortPar.simps) simp

lemma sorted_slice_inside:
  assumes "0 \<le> A" "A + L \<le> int (length m)" "sorted (slice m A L)"
  shows "\<forall>x y. A \<le> x \<and> x < y \<and> y < A + L \<longrightarrow>
           m ! nat x \<le> m ! nat y \<or> (\<exists>t\<in>{}. fst t \<le> x \<and> y < fst t + snd t)"
proof (intro allI impI)
  fix x y assume xy: "A \<le> x \<and> x < y \<and> y < A + L"
  then have n: "nat (x - A) \<le> nat (y - A)" "nat (y - A) < nat L" "nat (x - A) < nat L" by auto
  have "slice m A L ! nat (x - A) \<le> slice m A L ! nat (y - A)"
    using assms(3) n length_slice[OF assms(1,2)] by (intro sorted_nth_mono) auto
  moreover have "slice m A L ! nat (x - A) = m ! nat x"
    using slice_nth[OF assms(1,2) n(3)] xy by simp
  moreover have "slice m A L ! nat (y - A) = m ! nat y"
    using slice_nth[OF assms(1,2) n(2)] xy by simp
  ultimately show "m ! nat x \<le> m ! nat y \<or> (\<exists>t\<in>{}. fst t \<le> x \<and> y < fst t + snd t)" by simp
qed

lemma task_footprint:
  assumes "0 \<le> A" "A + L \<le> int (length (mem s))"
  shows "\<exists>s' lg. qSortPar cutoff s A L = Some s' \<and> length (mem s') = length (mem s)
           \<and> (\<forall>k. 0 \<le> k \<and> (k < A \<or> A + L \<le> k) \<longrightarrow> mem s' ! nat k = mem s ! nat k)
           \<and> plog s' = plog s @ lg \<and> (\<forall>t\<in>set lg. A \<le> fst t \<and> fst t + snd t \<le> A + L)"
proof (cases "1 < L \<and> \<not> L < cutoff")
  case True
  then have L2: "2 \<le> L" by simp
  from partition_spec[OF assms(1) L2 assms(2)]
  obtain m' p where P: "partition_arr (mem s) A L = Some (m', p)" "length m' = length (mem s)"
    "\<forall>k. 0 \<le> k \<and> (k < A \<or> A + L \<le> k) \<longrightarrow> m' ! nat k = mem s ! nat k"
    by blast
  have "qSortPar cutoff s A L =
      Some (s\<lparr>mem := m', plog := plog s @ [(A, L)], pool := pool s @ [(A, p), (A + p, L - p)]\<rparr>)"
    using True P(1) by (intro qSortPar_fork) auto
  moreover have "\<forall>t\<in>set [(A, L)]. A \<le> fst t \<and> fst t + snd t \<le> A + L" by simp
  ultimately show ?thesis using P(2,3) by fastforce
next
  case False
  have "qSortPar cutoff s A L = qSort s A L"
  proof (cases "1 < L")
    case True
    with False have "L < cutoff" by simp
    then show ?thesis using assms by (rule qSortPar_below_cutoff)
  next
    case False
    then show ?thesis by (subst qSortPar.simps, subst qSort.simps) simp
  qed
  with qSort_spec[OF assms] show ?thesis by auto
qed

text \<open>
  One step of the scheduler: any pending task can be run, the call returns, the invariant
  holds again, the weight of the pool has gone down and the budget has not gone up.
\<close>

lemma task_step:
  assumes inv: "pool_inv s" and k: "k < length (pool s)" and t: "pool s ! k = (A, L)"
  shows "\<exists>s'. qSortPar cutoff (s\<lparr>pool := remove_nth k (pool s)\<rparr>) A L = Some s' \<and> pool_inv s'
           \<and> length (mem s') = length (mem s) \<and> mset (mem s') = mset (mem s)
           \<and> weight (pool s') < weight (pool s) \<and> budget s' \<le> budget s"
proof -
  define R where "R = remove_nth k (pool s)"
  define sr where "sr = s\<lparr>pool := R\<rparr>"
  have sr: "mem sr = mem s" "pool sr = R" "plog sr = plog s" by (simp_all add: sr_def)
  from inv have dP: "distinct (pool s)" by (simp add: pool_inv_def)
  note rm = pool_remove[OF dP k t, folded R_def]
  have tin: "(A, L) \<in> set (pool s)" using rm(1) by simp
  have Rsub: "set R \<subseteq> set (pool s)" using rm(1) by auto
  from inv tin have rng: "0 \<le> A" "1 \<le> L" "A + L \<le> int (length (mem s))"
    unfolding pool_inv_def by fastforce+
  have Rb: "\<forall>u\<in>set R. 0 \<le> fst u \<and> 1 \<le> snd u \<and> fst u + snd u \<le> int (length (mem s))"
    using inv Rsub unfolding pool_inv_def by blast
  have Rd: "\<forall>u\<in>set R. \<forall>v\<in>set R. u \<noteq> v \<longrightarrow> range_disj u v"
    using inv Rsub unfolding pool_inv_def by blast
  have dj: "\<forall>u\<in>set R. range_disj (A, L) u"
  proof
    fix u assume u: "u \<in> set R"
    then have "u \<noteq> (A, L)" using rm(2) by auto
    moreover have "u \<in> set (pool s)" using u Rsub by auto
    ultimately show "range_disj (A, L) u" using inv tin unfolding pool_inv_def by metis
  qed
  have ord: "ordered_up_to (mem s) (insert (A, L) (set R))"
    using inv rm(1) by (simp add: pool_inv_def)
  have wP: "weight (pool s) = weight R + nat (2 * L - 1)" using rm(4) by simp
  have bP: "budget s = length (plog s) + slack R + nat (L - 1)"
    using rm(5) by (simp add: budget_def)
  show ?thesis
  proof (cases "1 < L \<and> \<not> L < cutoff")
    case False
    have "qSortPar cutoff sr A L = qSort sr A L"
    proof (cases "1 < L")
      case True
      with False have "L < cutoff" by simp
      then show ?thesis using rng sr by (intro qSortPar_below_cutoff) auto
    next
      case False
      then show ?thesis by (subst qSortPar.simps, subst qSort.simps) simp
    qed
    moreover from qSort_spec[of A L sr] rng sr
    obtain s' where S: "qSort sr A L = Some s'" "length (mem s') = length (mem s)"
      "mset (mem s') = mset (mem s)"
      "\<forall>k. 0 \<le> k \<and> (k < A \<or> A + L \<le> k) \<longrightarrow> mem s' ! nat k = mem s ! nat k"
      "sorted (slice (mem s') A L)" "pool s' = R"
      "length (plog s') \<le> length (plog s) + nat (L - 1)"
      by auto
    have b': "A + L \<le> int (length (mem s'))" using rng(3) S(2) by simp
    have "ordered_up_to (mem s') (set R \<union> {})"
      using ord dj rng S(2,3,4) sorted_slice_inside[OF rng(1) b' S(5)]
      by (rule order_transfer)
    then have "pool_inv s'"
      using rm(3) Rb Rd S(2,6) by (simp add: pool_inv_def)
    moreover have "weight (pool s') < weight (pool s)"
      using wP S(6) rng(2) by simp
    moreover have "budget s' \<le> budget s"
      using bP S(6,7) by (simp add: budget_def)
    ultimately show ?thesis using S(1,2,3) by (simp add: sr_def R_def)
  next
    case True
    then have L2: "2 \<le> L" by simp
    from partition_spec[OF rng(1) L2 rng(3)]
    obtain m' p pivot where P: "partition_arr (mem s) A L = Some (m', p)" "0 < p" "p < L"
      "length m' = length (mem s)" "mset m' = mset (mem s)"
      "\<forall>k. 0 \<le> k \<and> (k < A \<or> A + L \<le> k) \<longrightarrow> m' ! nat k = mem s ! nat k"
      "\<forall>q. 0 \<le> q \<and> q < p \<longrightarrow> m' ! nat (A + q) \<le> pivot"
      "\<forall>q. p \<le> q \<and> q < L \<longrightarrow> pivot \<le> m' ! nat (A + q)"
      by blast
    define s' where "s' = sr\<lparr>mem := m', plog := plog sr @ [(A, L)], pool := pool sr @ [(A, p), (A + p, L - p)]\<rparr>"
    have s': "mem s' = m'" "pool s' = R @ [(A, p), (A + p, L - p)]"
      "length (plog s') = Suc (length (plog s))" by (simp_all add: s'_def sr)
    have run: "qSortPar cutoff sr A L = Some s'"
      unfolding s'_def using True P(1) sr by (intro qSortPar_fork) auto
    let ?T = "{(A, p), (A + p, L - p)}"
    have inside: "\<forall>x y. A \<le> x \<and> x < y \<and> y < A + L \<longrightarrow>
                   m' ! nat x \<le> m' ! nat y \<or> (\<exists>t\<in>?T. fst t \<le> x \<and> y < fst t + snd t)"
    proof (intro allI impI)
      fix x y assume xy: "A \<le> x \<and> x < y \<and> y < A + L"
      consider "y < A + p" | "A + p \<le> x" | "x < A + p" "A + p \<le> y" by linarith
      then show "m' ! nat x \<le> m' ! nat y \<or> (\<exists>t\<in>?T. fst t \<le> x \<and> y < fst t + snd t)"
      proof cases
        case 1 with xy show ?thesis by simp
      next
        case 2 with xy show ?thesis by simp
      next
        case 3
        have "m' ! nat (A + (x - A)) \<le> pivot" using P(7) xy 3 by (intro P(7)[rule_format]) auto
        moreover have "pivot \<le> m' ! nat (A + (y - A))" using xy 3 by (intro P(8)[rule_format]) auto
        ultimately show ?thesis by simp
      qed
    qed
    have o': "ordered_up_to m' (set R \<union> ?T)"
      using ord dj rng P(4,5,6) inside by (rule order_transfer)
    have notin: "(A, p) \<notin> set R" "(A + p, L - p) \<notin> set R"
      using dj P(2,3) unfolding range_disj_def by fastforce+
    have dist: "distinct (R @ [(A, p), (A + p, L - p)])"
      using rm(3) notin P(2) by simp
    have bnds: "\<forall>u\<in>set (R @ [(A, p), (A + p, L - p)]). 0 \<le> fst u \<and> 1 \<le> snd u \<and> fst u + snd u \<le> int (length m')"
      using Rb P(2,3,4) rng by auto
    have djR: "range_disj (A, p) u \<and> range_disj u (A, p) \<and> range_disj (A + p, L - p) u \<and> range_disj u (A + p, L - p)" if "u \<in> set R" for u
      using dj that P(2,3) unfolding range_disj_def by fastforce
    have dnew: "range_disj (A, p) (A + p, L - p)" "range_disj (A + p, L - p) (A, p)"
      by (simp_all add: range_disj_def)
    have djs: "\<forall>u\<in>set (R @ [(A, p), (A + p, L - p)]). \<forall>v\<in>set (R @ [(A, p), (A + p, L - p)]). u \<noteq> v \<longrightarrow> range_disj u v"
    proof (intro ballI impI)
      fix u v assume uv: "u \<in> set (R @ [(A, p), (A + p, L - p)])" "v \<in> set (R @ [(A, p), (A + p, L - p)])" "u \<noteq> v"
      then have "u \<in> set R \<or> u = (A, p) \<or> u = (A + p, L - p)"
        and "v \<in> set R \<or> v = (A, p) \<or> v = (A + p, L - p)" by auto
      then show "range_disj u v" using Rd djR dnew uv(3) by blast
    qed
    have "pool_inv s'"
      unfolding pool_inv_def s' using dist bnds djs o' by simp
    moreover have "weight (pool s') < weight (pool s)"
      using wP P(2,3) by (simp add: s' weight_def)
    moreover have "budget s' \<le> budget s"
    proof -
      have "slack (pool s') = slack R + nat (p - 1) + nat (L - p - 1)"
        by (simp add: s' slack_def)
      then show ?thesis using bP s'(3) P(2,3) by (simp add: budget_def)
    qed
    ultimately show ?thesis using run P(4,5) s'(1) by (simp add: sr_def R_def)
  qed
qed


lemma run_tasks_spec:
  assumes "pool_inv s"
  shows "\<exists>s'. run_tasks cutoff pick s = Some s' \<and> pool s' = [] \<and> pool_inv s'
           \<and> length (mem s') = length (mem s) \<and> mset (mem s') = mset (mem s)
           \<and> length (plog s') \<le> budget s"
  using assms
proof (induction "weight (pool s)" arbitrary: s rule: less_induct)
  case less
  show ?case
  proof (cases "pool s = []")
    case True
    then have "run_tasks cutoff pick s = Some s" by (subst run_tasks.simps) simp
    with True less.prems show ?thesis by (simp add: budget_def)
  next
    case False
    define k where "k = pick s mod length (pool s)"
    have k: "k < length (pool s)" using False by (simp add: k_def)
    obtain A L where t: "pool s ! k = (A, L)" by (cases "pool s ! k")
    from task_step[OF less.prems k t, of cutoff]
    obtain s1 where S1: "qSortPar cutoff (s\<lparr>pool := remove_nth k (pool s)\<rparr>) A L = Some s1"
      "pool_inv s1" "length (mem s1) = length (mem s)" "mset (mem s1) = mset (mem s)"
      "weight (pool s1) < weight (pool s)" "budget s1 \<le> budget s"
      by blast
    from less.hyps[OF S1(5) S1(2)]
    obtain s' where S': "run_tasks cutoff pick s1 = Some s'" "pool s' = []" "pool_inv s'"
      "length (mem s') = length (mem s1)" "mset (mem s') = mset (mem s1)"
      "length (plog s') \<le> budget s1"
      by blast
    have "run_tasks cutoff pick s = Some s'"
      using False t S1(1) S'(1) by (subst run_tasks.simps) (simp add: k_def[symmetric])
    with S' S1(3,4,6) show ?thesis by simp
  qed
qed

lemma pool_inv_sorted:
  assumes "pool_inv s" "pool s = []"
  shows "sorted (mem s)"
  unfolding sorted_iff_nth_mono_less
proof (intro allI impI)
  fix i j assume ij: "i < j" "j < length (mem s)"
  from assms have "ordered_up_to (mem s) {}" by (simp add: pool_inv_def)
  then have "\<forall>x y. 0 \<le> x \<and> x < y \<and> y < int (length (mem s)) \<longrightarrow> mem s ! nat x \<le> mem s ! nat y"
    by (simp add: ordered_up_to_def)
  moreover have "0 \<le> int i \<and> int i < int j \<and> int j < int (length (mem s))" using ij by simp
  ultimately have "mem s ! nat (int i) \<le> mem s ! nat (int j)" by blast
  then show "mem s ! i \<le> mem s ! j" by simp
qed

lemma sort_sequential_spec:
  "\<exists>s'. sort_sequential m = Some s' \<and> sorted (mem s') \<and> mset (mem s') = mset m
        \<and> length (mem s') = length m \<and> pool s' = [] \<and> length (plog s') \<le> length m - 1"
proof -
  from qSort_spec[of 0 "int (length m)" "init_state m"]
  obtain s' where S: "qSort (init_state m) 0 (int (length m)) = Some s'"
    "length (mem s') = length m" "mset (mem s') = mset m"
    "sorted (slice (mem s') 0 (int (length m)))" "pool s' = []"
    "length (plog s') \<le> length m - 1"
    by (auto simp: init_state_def nat_diff_distrib)
  from S(2,4) slice_whole[of "mem s'"] have "sorted (mem s')" by simp
  with S show ?thesis by (simp add: sort_sequential_def)
qed

lemma sort_parallel_spec:
  "\<exists>s'. sort_parallel cutoff pick m = Some s' \<and> sorted (mem s') \<and> mset (mem s') = mset m
        \<and> length (mem s') = length m \<and> pool s' = [] \<and> length (plog s') \<le> length m - 1"
proof -
  have "\<exists>s1. qSortPar cutoff (init_state m) 0 (int (length m)) = Some s1 \<and> pool_inv s1
          \<and> length (mem s1) = length m \<and> mset (mem s1) = mset m \<and> budget s1 \<le> length m - 1"
  proof (cases "m = []")
    case True
    then have "qSortPar cutoff (init_state m) 0 (int (length m)) = Some (init_state m)"
      by (intro qSortPar_small) simp
    moreover have "pool_inv (init_state m)"
      using True by (simp add: pool_inv_def init_state_def ordered_up_to_def)
    ultimately show ?thesis by (simp add: init_state_def budget_def slack_def)
  next
    case False
    define sv where "sv = \<lparr>mem = m, plog = [], pool = [(0, int (length m))]\<rparr>"
    have "ordered_up_to m {(0, int (length m))}"
      by (simp add: ordered_up_to_def)
    then have inv: "pool_inv sv"
      using False by (simp add: pool_inv_def sv_def Suc_leI)
    have k: "0 < length (pool sv)" and t: "pool sv ! 0 = (0, int (length m))"
      by (simp_all add: sv_def)
    have e: "sv\<lparr>pool := remove_nth 0 (pool sv)\<rparr> = init_state m"
      by (simp add: sv_def remove_nth_def init_state_def)
    have ms: "mem sv = m" by (simp add: sv_def)
    have bs: "budget sv = length m - 1"
      by (simp add: sv_def budget_def slack_def nat_diff_distrib)
    from task_step[OF inv k t, of cutoff] show ?thesis unfolding e ms bs by blast
  qed
  then obtain s1 where S1: "qSortPar cutoff (init_state m) 0 (int (length m)) = Some s1"
    "pool_inv s1" "length (mem s1) = length m" "mset (mem s1) = mset m"
    "budget s1 \<le> length m - 1"
    by blast
  from run_tasks_spec[OF S1(2), of cutoff pick]
  obtain s' where S': "run_tasks cutoff pick s1 = Some s'" "pool s' = []" "pool_inv s'"
    "length (mem s') = length (mem s1)" "mset (mem s') = mset (mem s1)"
    "length (plog s') \<le> budget s1"
    by blast
  have "sort_parallel cutoff pick m = Some s'"
    using S1(1) S'(1) by (simp add: sort_parallel_def)
  moreover have "sorted (mem s')" using S'(2,3) pool_inv_sorted by blast
  ultimately show ?thesis using S' S1 by simp
qed

lemma sorted_perm_unique:
  assumes "sorted xs" "sorted ys" "mset xs = mset (ys :: int list)"
  shows "xs = ys"
  using assms by (metis properties_for_sort)

section \<open>partition on a range of an enclosing array\<close>

text \<open>
  A run of \<open>partition\<close> on an array \<open>xs\<close> that returns is repeated, access by access,
  when \<open>xs\<close> sits between two other pieces of a larger array.
\<close>

lemma rd_embed:
  assumes "rd xs k = Some v"
  shows "rd (pre @ xs @ post) (int (length pre) + k) = Some v"
proof -
  from assms have k: "0 \<le> k" "k < int (length xs)" "v = xs ! nat k"
    by (auto simp: rd_def split: if_splits)
  have nk: "nat k < length xs" using k(1,2) by linarith
  have "nat (int (length pre) + k) = length pre + nat k" using k(1) by simp
  moreover have "(pre @ xs @ post) ! (length pre + nat k) = xs ! nat k"
    using nk by (simp add: nth_append)
  ultimately show ?thesis using k by (simp add: rd_def)
qed

lemma wr_embed:
  assumes "wr xs k v = Some xs'"
  shows "wr (pre @ xs @ post) (int (length pre) + k) v = Some (pre @ xs' @ post)"
proof -
  from assms have k: "0 \<le> k" "k < int (length xs)" "xs' = xs[nat k := v]"
    by (auto simp: wr_def split: if_splits)
  have nk: "nat k < length xs" using k(1,2) by linarith
  have "nat (int (length pre) + k) = length pre + nat k" using k(1) by simp
  moreover have "(pre @ xs @ post)[length pre + nat k := v] = pre @ xs[nat k := v] @ post"
    using nk by (simp add: list_update_append)
  ultimately show ?thesis using k by (simp add: wr_def)
qed

lemma scan_up_embed:
  "scan_up xs A0 pivot i = Some i' \<Longrightarrow>
   scan_up (pre @ xs @ post) (int (length pre) + A0) pivot i = Some i'"
proof (induction xs A0 pivot i rule: scan_up.induct)
  case (1 m A pivot i)
  from "1.prems" obtain v where v: "rd m (A + i) = Some v"
    by (subst (asm) scan_up.simps) (auto split: option.splits)
  have big: "rd (pre @ m @ post) (int (length pre) + A + i) = Some v"
    using rd_embed[OF v, of pre post] by (simp add: add.assoc)
  show ?case
  proof (cases "v < pivot")
    case True
    from "1.prems" v True have "scan_up m A pivot (i + 1) = Some i'"
      by (subst (asm) scan_up.simps) simp
    from "1.IH"[OF v True this] show ?thesis
      using big True by (subst scan_up.simps) simp
  next
    case False
    from "1.prems" v False have "i' = i" by (subst (asm) scan_up.simps) simp
    then show ?thesis using big False by (subst scan_up.simps) simp
  qed
qed

lemma scan_down_embed:
  "scan_down xs A0 pivot j = Some j' \<Longrightarrow>
   scan_down (pre @ xs @ post) (int (length pre) + A0) pivot j = Some j'"
proof (induction xs A0 pivot j rule: scan_down.induct)
  case (1 m A pivot j)
  from "1.prems" obtain v where v: "rd m (A + j) = Some v"
    by (subst (asm) scan_down.simps) (auto split: option.splits)
  have big: "rd (pre @ m @ post) (int (length pre) + A + j) = Some v"
    using rd_embed[OF v, of pre post] by (simp add: add.assoc)
  show ?case
  proof (cases "v > pivot")
    case True
    from "1.prems" v True have "scan_down m A pivot (j - 1) = Some j'"
      by (subst (asm) scan_down.simps) simp
    from "1.IH"[OF v True this] show ?thesis
      using big True by (subst scan_down.simps) simp
  next
    case False
    from "1.prems" v False have "j' = j" by (subst (asm) scan_down.simps) simp
    then show ?thesis using big False by (subst scan_down.simps) simp
  qed
qed

lemma partition_loop_SomeD:
  assumes "partition_loop m A pivot i j = Some (r, p)"
  obtains i' j' where "scan_up m A pivot i = Some i'" "scan_down m A pivot j = Some j'"
    "j' \<le> i'" "r = m" "p = i'"
  | i' j' temp aj m1 m2 where "scan_up m A pivot i = Some i'" "scan_down m A pivot j = Some j'"
    "\<not> j' \<le> i'" "rd m (A + i') = Some temp" "rd m (A + j') = Some aj"
    "wr m (A + i') aj = Some m1" "wr m1 (A + j') temp = Some m2"
    "partition_loop m2 A pivot (i' + 1) (j' - 1) = Some (r, p)"
proof -
  note eq = partition_loop.simps[of m A pivot i j]
  obtain i' where i': "scan_up m A pivot i = Some i'"
    using assms by (cases "scan_up m A pivot i") (simp_all add: eq)
  obtain j' where j': "scan_down m A pivot j = Some j'"
    using assms i' by (cases "scan_down m A pivot j") (simp_all add: eq)
  show ?thesis
  proof (cases "j' \<le> i'")
    case True
    with assms i' j' have "r = m" "p = i'" by (simp_all add: eq)
    with that(1) i' j' True show ?thesis by blast
  next
    case False
    obtain temp where r1: "rd m (A + i') = Some temp"
      using assms i' j' False by (cases "rd m (A + i')") (simp_all add: eq)
    obtain aj where r2: "rd m (A + j') = Some aj"
      using assms i' j' False r1 by (cases "rd m (A + j')") (simp_all add: eq)
    obtain m1 where w1: "wr m (A + i') aj = Some m1"
      using assms i' j' False r1 r2 by (cases "wr m (A + i') aj") (simp_all add: eq)
    obtain m2 where w2: "wr m1 (A + j') temp = Some m2"
      using assms i' j' False r1 r2 w1 by (cases "wr m1 (A + j') temp") (simp_all add: eq)
    have "partition_loop m2 A pivot (i' + 1) (j' - 1) = Some (r, p)"
      using assms i' j' False r1 r2 w1 w2 by (simp add: eq)
    with that(2) i' j' False r1 r2 w1 w2 show ?thesis by blast
  qed
qed


lemma partition_loop_embed:
  "partition_loop xs A0 pivot i j = Some (r, p) \<Longrightarrow>
   partition_loop (pre @ xs @ post) (int (length pre) + A0) pivot i j = Some (pre @ r @ post, p)"
proof (induction xs A0 pivot i j rule: partition_loop.induct)
  case (1 m A pivot i j)
  note eq = partition_loop.simps[of "pre @ m @ post" "int (length pre) + A" pivot i j]
  from "1.prems" show ?case
  proof (cases rule: partition_loop_SomeD)
    case (1 i' j')
    note bi = scan_up_embed[OF 1(1), of pre post] and bj = scan_down_embed[OF 1(2), of pre post]
    show ?thesis using bi bj 1(3,4,5) by (simp add: eq)
  next
    case (2 i' j' temp aj m1 m2)
    note bi = scan_up_embed[OF 2(1), of pre post] and bj = scan_down_embed[OF 2(2), of pre post]
    have nle: "\<not> i' \<ge> j'" using 2(3) by simp
    have B1: "rd (pre @ m @ post) (int (length pre) + A + i') = Some temp"
      using rd_embed[OF 2(4), of pre post] by (simp add: add.assoc)
    have B2: "rd (pre @ m @ post) (int (length pre) + A + j') = Some aj"
      using rd_embed[OF 2(5), of pre post] by (simp add: add.assoc)
    have B3: "wr (pre @ m @ post) (int (length pre) + A + i') aj = Some (pre @ m1 @ post)"
      using wr_embed[OF 2(6), of pre post] by (simp add: add.assoc)
    have B4: "wr (pre @ m1 @ post) (int (length pre) + A + j') temp = Some (pre @ m2 @ post)"
      using wr_embed[OF 2(7), of pre post] by (simp add: add.assoc)
    have "partition_loop (pre @ m2 @ post) (int (length pre) + A) pivot (i' + 1) (j' - 1) = Some (pre @ r @ post, p)"
      by (rule "1.IH"[OF 2(1) 2(2) nle 2(4) 2(5) 2(6) 2(7) 2(8)])
    then show ?thesis using bi bj 2(3) B1 B2 B3 B4 by (simp add: eq)
  qed
qed

lemma partition_embed:
  assumes "partition_arr xs A0 L = Some (r, p)"
  shows "partition_arr (pre @ xs @ post) (int (length pre) + A0) L = Some (pre @ r @ post, p)"
proof -
  from assms obtain pivot where pv: "rd xs (A0 + L sdiv 2) = Some pivot"
    and lp: "partition_loop xs A0 pivot 0 (L - 1) = Some (r, p)"
    by (auto simp: partition_arr_def split: option.splits)
  have "rd (pre @ xs @ post) (int (length pre) + A0 + L sdiv 2) = Some pivot"
    using rd_embed[OF pv, of pre post] by (simp add: add.assoc)
  then show ?thesis
    using partition_loop_embed[OF lp, of pre post] by (simp add: partition_arr_def)
qed

lemma partition_local:
  assumes "2 \<le> L" "0 \<le> A" "A + L \<le> int (length m)"
  shows "\<exists>r p. partition_arr (slice m A L) 0 L = Some (r, p)
           \<and> partition_arr m A L = Some (take (nat A) m @ r @ drop (nat (A + L)) m, p)"
proof -
  let ?pre = "take (nat A) m" and ?post = "drop (nat (A + L)) m"
  have len: "int (length (slice m A L)) = L" using assms by (simp add: length_slice)
  from partition_spec[of 0 L "slice m A L"] assms(1) len
  obtain r p where rp: "partition_arr (slice m A L) 0 L = Some (r, p)" by auto
  have e: "nat (A + L) = nat L + nat A" using assms by simp
  have "?post = drop (nat L) (drop (nat A) m)" by (simp only: e drop_drop)
  then have d: "slice m A L @ ?post = drop (nat A) m"
    by (simp only: slice_def append_take_drop_id)
  have m: "?pre @ slice m A L @ ?post = m"
    by (simp only: d append_take_drop_id)
  have "int (length ?pre) = A" using assms by simp
  with partition_embed[OF rp, of ?pre ?post] m rp show ?thesis by simp
qed

section \<open>The claims\<close>

text \<open>
  Claim C1.  For every input array, the sequential sorter and the parallel sorter (for every
  cutoff and every schedule of the task pool) return normally and leave the array sorted in
  non-decreasing order, holding exactly the multiset of values it held before; the length
  is unchanged.
\<close>

theorem sort_permutation_sorted:
  "(\<exists>s'. sort_sequential m = Some s' \<and> sorted (mem s') \<and> mset (mem s') = mset m
          \<and> length (mem s') = length m)
   \<and> (\<exists>s'. sort_parallel cutoff pick m = Some s' \<and> sorted (mem s') \<and> mset (mem s') = mset m
          \<and> length (mem s') = length m)"
  using sort_sequential_spec[of m] sort_parallel_spec[of cutoff pick m] by blast

theorem sort_permutation_sorted_witness:
  "sort_sequential [5, 3, 8, 1, 9, 2] =
     Some \<lparr>mem = [1, 2, 3, 5, 8, 9], plog = [(0, 6), (1, 5), (1, 2), (3, 3), (3, 2)], pool = []\<rparr>
   \<and> sort_parallel 1 (pick_fixed 0) [5, 3, 8, 1, 9, 2] =
     Some \<lparr>mem = [1, 2, 3, 5, 8, 9], plog = [(0, 6), (1, 5), (1, 2), (3, 3), (3, 2)], pool = []\<rparr>
   \<and> (\<exists>s'. sort_sequential [5, 3, 8, 1, 9, 2] = Some s' \<and> sorted (mem s')
          \<and> mset (mem s') = mset [5, 3, 8, 1, 9, 2] \<and> length (mem s') = length [5, 3, 8, 1, 9, 2 :: int])
   \<and> (\<exists>s'. sort_parallel 1 (pick_fixed 0) [5, 3, 8, 1, 9, 2] = Some s' \<and> sorted (mem s')
          \<and> mset (mem s') = mset [5, 3, 8, 1, 9, 2] \<and> length (mem s') = length [5, 3, 8, 1, 9, 2 :: int])"
proof -
  have a: "sort_sequential [5, 3, 8, 1, 9, 2] =
     Some \<lparr>mem = [1, 2, 3, 5, 8, 9], plog = [(0, 6), (1, 5), (1, 2), (3, 3), (3, 2)], pool = []\<rparr>"
    by code_simp
  have b: "sort_parallel 1 (pick_fixed 0) [5, 3, 8, 1, 9, 2] =
     Some \<lparr>mem = [1, 2, 3, 5, 8, 9], plog = [(0, 6), (1, 5), (1, 2), (3, 3), (3, 2)], pool = []\<rparr>"
    by code_simp
  note t = sort_permutation_sorted[of "[5, 3, 8, 1, 9, 2]" 1 "pick_fixed 0"]
  show ?thesis
    by (intro conjI a b t[THEN conjunct1] t[THEN conjunct2])
qed

text \<open>
  Claim C2.  For every range of length \<open>L > 1\<close> lying inside the array, \<open>partition\<close> returns
  a split index \<open>p\<close> with \<open>0 < p < L\<close>; the two sub-ranges \<open>[0, p)\<close> and \<open>[p, L)\<close> are
  therefore both non-empty, both strictly shorter than the range, and concatenate to exactly
  the range.  No assumption is made about the values, so arrays full of copies of the pivot are
  included.
\<close>

theorem partition_split_progress:
  assumes "2 \<le> L" "0 \<le> A" "A + L \<le> int (length m)"
  shows "\<exists>m' p. partition_arr m A L = Some (m', p) \<and> 0 < p \<and> p < L \<and> L - p < L
           \<and> slice m' A L = slice m' A p @ slice m' (A + p) (L - p)
           \<and> length (slice m' A p) = nat p \<and> length (slice m' (A + p) (L - p)) = nat (L - p)"
proof -
  from partition_spec[OF assms(2,1,3)]
  obtain m' p where P: "partition_arr m A L = Some (m', p)" "0 < p" "p < L" "length m' = length m"
    by blast
  have "slice m' A L = slice m' A p @ slice m' (A + p) (L - p)"
    using assms(2) P(2,3) by (intro slice_split) auto
  moreover have "length (slice m' A p) = nat p"
    using assms P by (intro length_slice) auto
  moreover have "length (slice m' (A + p) (L - p)) = nat (L - p)"
    using assms P by (intro length_slice) auto
  ultimately show ?thesis using P by simp
qed

theorem partition_split_progress_witness:
  "partition_arr [4, 4, 4, 4] 0 4 = Some ([4, 4, 4, 4], 2)
   \<and> (\<exists>m' p. partition_arr [4, 4, 4, 4] 0 4 = Some (m', p) \<and> 0 < p \<and> p < 4 \<and> 4 - p < 4
           \<and> slice m' 0 4 = slice m' 0 p @ slice m' (0 + p) (4 - p)
           \<and> length (slice m' 0 p) = nat p \<and> length (slice m' (0 + p) (4 - p)) = nat (4 - p))"
proof -
  have a: "partition_arr [4, 4, 4, 4] 0 4 = Some ([4, 4, 4, 4], 2)" by code_simp
  have h: "(2::int) \<le> 4" "(0::int) \<le> 0" "0 + 4 \<le> int (length [4, 4, 4, 4 :: int])" by simp_all
  show ?thesis
    by (intro conjI a partition_split_progress[OF h])
qed

text \<open>
  Claim C3.  Both sorters return on every input array: the recursive functions are defined
  as partial functions in the option monad, where \<open>None\<close> stands for a call that does not
  return normally, and the result is shown to be \<open>Some\<close>.  The proofs go by induction on the
  range length, which strictly decreases along every recursive call.  In addition the number
  of partition operations is at most the array length minus one, for the sequential sorter
  and for every schedule of the parallel one.  The all-duplicate array \<open>[4, 4, 4, 4]\<close> is
  sorted with three partition operations.
\<close>

theorem sorters_terminate:
  "(\<exists>s'. sort_sequential m = Some s' \<and> length (plog s') \<le> length m - 1)
   \<and> (\<exists>s'. sort_parallel cutoff pick m = Some s' \<and> length (plog s') \<le> length m - 1)
   \<and> sort_sequential [4, 4, 4, 4] =
        Some \<lparr>mem = [4, 4, 4, 4], plog = [(0, 4), (0, 2), (2, 2)], pool = []\<rparr>"
proof -
  have "sort_sequential [4, 4, 4, 4] =
        Some \<lparr>mem = [4, 4, 4, 4], plog = [(0, 4), (0, 2), (2, 2)], pool = []\<rparr>"
    by code_simp
  then show ?thesis
    using sort_sequential_spec[of m] sort_parallel_spec[of cutoff pick m] by blast
qed

theorem sorters_terminate_witness:
  "sort_parallel 1 (pick_fixed 1) [2, 2, 2, 2, 2] =
     Some \<lparr>mem = [2, 2, 2, 2, 2], plog = [(0, 5), (2, 3), (3, 2), (0, 2)], pool = []\<rparr>
   \<and> (\<exists>s'. sort_sequential [2, 2, 2, 2, 2] = Some s' \<and> length (plog s') \<le> length [2, 2, 2, 2, 2 :: int] - 1)
   \<and> (\<exists>s'. sort_parallel 1 (pick_fixed 1) [2, 2, 2, 2, 2] = Some s'
          \<and> length (plog s') \<le> length [2, 2, 2, 2, 2 :: int] - 1)"
proof -
  have a: "sort_parallel 1 (pick_fixed 1) [2, 2, 2, 2, 2] =
     Some \<lparr>mem = [2, 2, 2, 2, 2], plog = [(0, 5), (2, 3), (3, 2), (0, 2)], pool = []\<rparr>"
    by code_simp
  note t = sorters_terminate[of "[2, 2, 2, 2, 2]" 1 "pick_fixed 1"]
  show ?thesis
    by (intro conjI a t[THEN conjunct1] t[THEN conjunct2, THEN conjunct1])
qed


text \<open>
  Claim C4.  For every range of length \<open>L > 1\<close> lying inside the array, after \<open>partition\<close> has
  returned the split index \<open>p\<close>, every element now at a range index below \<open>p\<close> is less than
  or equal to every element now at a range index from \<open>p\<close> on.  Nothing is said about where
  the pivot value itself ends up.
\<close>

theorem partition_orders_halves:
  assumes "2 \<le> L" "0 \<le> A" "A + L \<le> int (length m)"
  shows "\<exists>m' p. partition_arr m A L = Some (m', p)
           \<and> (\<forall>x y. 0 \<le> x \<and> x < p \<and> p \<le> y \<and> y < L \<longrightarrow> m' ! nat (A + x) \<le> m' ! nat (A + y))"
proof -
  from partition_spec[OF assms(2,1,3)]
  obtain m' p pivot where P: "partition_arr m A L = Some (m', p)"
    "\<forall>q. 0 \<le> q \<and> q < p \<longrightarrow> m' ! nat (A + q) \<le> pivot"
    "\<forall>q. p \<le> q \<and> q < L \<longrightarrow> pivot \<le> m' ! nat (A + q)"
    by blast
  have "\<forall>x y. 0 \<le> x \<and> x < p \<and> p \<le> y \<and> y < L \<longrightarrow> m' ! nat (A + x) \<le> m' ! nat (A + y)"
  proof (intro allI impI)
    fix x y assume xy: "0 \<le> x \<and> x < p \<and> p \<le> y \<and> y < L"
    then have "m' ! nat (A + x) \<le> pivot" "pivot \<le> m' ! nat (A + y)"
      using P(2,3) by blast+
    then show "m' ! nat (A + x) \<le> m' ! nat (A + y)" by simp
  qed
  with P(1) show ?thesis by blast
qed

theorem partition_orders_halves_witness:
  "partition_arr [5, 3, 8, 1, 9, 2] 0 6 = Some ([1, 3, 8, 5, 9, 2], 1)
   \<and> (\<exists>m' p. partition_arr [5, 3, 8, 1, 9, 2] 0 6 = Some (m', p)
           \<and> (\<forall>x y. 0 \<le> x \<and> x < p \<and> p \<le> y \<and> y < 6 \<longrightarrow> m' ! nat (0 + x) \<le> m' ! nat (0 + y)))"
proof -
  have a: "partition_arr [5, 3, 8, 1, 9, 2] 0 6 = Some ([1, 3, 8, 5, 9, 2], 1)" by code_simp
  have h: "(2::int) \<le> 6" "(0::int) \<le> 0" "0 + 6 \<le> int (length [5, 3, 8, 1, 9, 2 :: int])" by simp_all
  show ?thesis
    by (intro conjI a partition_orders_halves[OF h])
qed

text \<open>
  Claim C5, as stated, says that \<open>qSortPar\<close> creates no task whenever the array length is
  less than or equal to the cutoff.  The test in the code is \<open>length < cutoff\<close>, so an array
  whose length equals the cutoff (and exceeds one) is forked: with cutoff \<open>4\<close> the array
  \<open>[4, 4, 4, 4]\<close> puts the two tasks \<open>(0, 2)\<close> and \<open>(2, 2)\<close> into the pool, and a schedule
  that runs the second of them first performs the partition operations in an order that
  differs from the sequential one.
\<close>

theorem qSortPar_at_cutoff_counterexample:
  "int (length [4, 4, 4, 4 :: int]) \<le> 4
   \<and> qSortPar 4 (init_state [4, 4, 4, 4]) 0 4 =
        Some \<lparr>mem = [4, 4, 4, 4], plog = [(0, 4)], pool = [(0, 2), (2, 2)]\<rparr>
   \<and> sort_parallel 4 (pick_fixed 1) [4, 4, 4, 4] =
        Some \<lparr>mem = [4, 4, 4, 4], plog = [(0, 4), (2, 2), (0, 2)], pool = []\<rparr>
   \<and> sort_sequential [4, 4, 4, 4] =
        Some \<lparr>mem = [4, 4, 4, 4], plog = [(0, 4), (0, 2), (2, 2)], pool = []\<rparr>"
  by code_simp

text \<open>
  Claim C5, amended.  For every range whose length is strictly less than the cutoff, or at
  most one, \<open>qSortPar\<close> returns exactly the state that \<open>qSort\<close> returns from the same
  state: the same array contents, the same sequence of partition operations in the log, and
  the task pool as it was, so no task was created at any depth of the recursion.  For every
  range whose length exceeds one and is not less than the cutoff, and so for every range of
  length greater than one that equals the cutoff, the call makes one partition operation and
  puts the two sub-ranges, both non-empty, into the pool as tasks.
\<close>

theorem qSortPar_cutoff_boundary:
  assumes "0 \<le> A" "A + L \<le> int (length (mem s))"
  shows "(L < cutoff \<or> L \<le> 1 \<longrightarrow>
           (\<exists>s'. qSortPar cutoff s A L = Some s' \<and> qSort s A L = Some s' \<and> pool s' = pool s))
       \<and> (1 < L \<and> cutoff \<le> L \<longrightarrow>
           (\<exists>m' p. partition_arr (mem s) A L = Some (m', p) \<and> 0 < p \<and> p < L \<and>
              qSortPar cutoff s A L =
                Some (s\<lparr>mem := m', plog := plog s @ [(A, L)],
                        pool := pool s @ [(A, p), (A + p, L - p)]\<rparr>)))"
proof (intro conjI impI)
  assume c: "L < cutoff \<or> L \<le> 1"
  have "qSortPar cutoff s A L = qSort s A L"
  proof (cases "L < cutoff")
    case True
    then show ?thesis using assms by (rule qSortPar_below_cutoff)
  next
    case False
    with c have "\<not> 1 < L" by simp
    then show ?thesis by (subst qSortPar.simps, subst qSort.simps) simp
  qed
  with qSort_spec[OF assms]
  show "\<exists>s'. qSortPar cutoff s A L = Some s' \<and> qSort s A L = Some s' \<and> pool s' = pool s"
    by auto
next
  assume c: "1 < L \<and> cutoff \<le> L"
  then have L2: "2 \<le> L" by simp
  from partition_spec[OF assms(1) L2 assms(2)]
  obtain m' p where P: "partition_arr (mem s) A L = Some (m', p)" "0 < p" "p < L" by blast
  have "qSortPar cutoff s A L =
      Some (s\<lparr>mem := m', plog := plog s @ [(A, L)], pool := pool s @ [(A, p), (A + p, L - p)]\<rparr>)"
    using c P(1) by (intro qSortPar_fork) auto
  with P show "\<exists>m' p. partition_arr (mem s) A L = Some (m', p) \<and> 0 < p \<and> p < L \<and>
              qSortPar cutoff s A L =
                Some (s\<lparr>mem := m', plog := plog s @ [(A, L)],
                        pool := pool s @ [(A, p), (A + p, L - p)]\<rparr>)"
    by blast
qed

theorem qSortPar_cutoff_boundary_witness:
  "qSortPar 5 (init_state [4, 4, 4, 4]) 0 4 =
     Some \<lparr>mem = [4, 4, 4, 4], plog = [(0, 4), (0, 2), (2, 2)], pool = []\<rparr>
   \<and> qSortPar 4 (init_state [2, 1, 4, 3]) 0 4 =
     Some \<lparr>mem = [2, 1, 3, 4], plog = [(0, 4)], pool = [(0, 3), (3, 1)]\<rparr>
   \<and> (\<exists>s'. qSortPar 5 (init_state [4, 4, 4, 4]) 0 4 = Some s' \<and> qSort (init_state [4, 4, 4, 4]) 0 4 = Some s'
          \<and> pool s' = pool (init_state [4, 4, 4, 4]))
   \<and> (\<exists>m' p. partition_arr (mem (init_state [2, 1, 4, 3])) 0 4 = Some (m', p) \<and> 0 < p \<and> p < 4 \<and>
          qSortPar 4 (init_state [2, 1, 4, 3]) 0 4 =
            Some ((init_state [2, 1, 4, 3])\<lparr>mem := m', plog := plog (init_state [2, 1, 4, 3]) @ [(0, 4)],
                    pool := pool (init_state [2, 1, 4, 3]) @ [(0, p), (0 + p, 4 - p)]\<rparr>))"
proof -
  have a: "qSortPar 5 (init_state [4, 4, 4, 4]) 0 4 =
     Some \<lparr>mem = [4, 4, 4, 4], plog = [(0, 4), (0, 2), (2, 2)], pool = []\<rparr>"
    by code_simp
  have b: "qSortPar 4 (init_state [2, 1, 4, 3]) 0 4 =
     Some \<lparr>mem = [2, 1, 3, 4], plog = [(0, 4)], pool = [(0, 3), (3, 1)]\<rparr>"
    by code_simp
  have h1: "(0::int) \<le> 0" "0 + 4 \<le> int (length (mem (init_state [4, 4, 4, 4])))"
    by (simp_all add: init_state_def)
  have h2: "(0::int) \<le> 0" "0 + 4 \<le> int (length (mem (init_state [2, 1, 4, 3])))"
    by (simp_all add: init_state_def)
  have c1: "(4::int) < 5 \<or> (4::int) \<le> 1" by simp
  have c2: "(1::int) < 4 \<and> (4::int) \<le> 4" by simp
  show ?thesis
    by (intro conjI a b
          qSortPar_cutoff_boundary[OF h1, of 5, THEN conjunct1, THEN mp, OF c1]
          qSortPar_cutoff_boundary[OF h2, of 4, THEN conjunct2, THEN mp, OF c2])
qed

text \<open>
  Claim C6.  The final array contents of the parallel sorter are the same for any two
  configurations (cutoffs and schedules), and are the contents the sequential sorter
  produces from the same input.
\<close>

theorem result_independent_of_configuration:
  "\<exists>s1 s2 s3. sort_parallel cutoff1 pick1 m = Some s1 \<and> sort_parallel cutoff2 pick2 m = Some s2
      \<and> sort_sequential m = Some s3 \<and> mem s1 = mem s2 \<and> mem s2 = mem s3"
proof -
  from sort_parallel_spec[of cutoff1 pick1 m]
  obtain s1 where 1: "sort_parallel cutoff1 pick1 m = Some s1" "sorted (mem s1)" "mset (mem s1) = mset m"
    by blast
  from sort_parallel_spec[of cutoff2 pick2 m]
  obtain s2 where 2: "sort_parallel cutoff2 pick2 m = Some s2" "sorted (mem s2)" "mset (mem s2) = mset m"
    by blast
  from sort_sequential_spec[of m]
  obtain s3 where 3: "sort_sequential m = Some s3" "sorted (mem s3)" "mset (mem s3) = mset m"
    by blast
  have "mem s1 = mem s2" using 1 2 by (intro sorted_perm_unique) simp_all
  moreover have "mem s2 = mem s3" using 2 3 by (intro sorted_perm_unique) simp_all
  ultimately show ?thesis using 1(1) 2(1) 3(1) by blast
qed

theorem result_independent_of_configuration_witness:
  "sort_parallel 1 (pick_fixed 0) [9, 8, 7, 6, 5] =
     Some \<lparr>mem = [5, 6, 7, 8, 9], plog = [(0, 5), (0, 2), (2, 3), (3, 2)], pool = []\<rparr>
   \<and> (\<exists>s1 s2 s3. sort_parallel 1 (pick_fixed 0) [9, 8, 7, 6, 5] = Some s1
        \<and> sort_parallel 3 (pick_fixed 1) [9, 8, 7, 6, 5] = Some s2
        \<and> sort_sequential [9, 8, 7, 6, 5] = Some s3 \<and> mem s1 = mem s2 \<and> mem s2 = mem s3)"
proof -
  have a: "sort_parallel 1 (pick_fixed 0) [9, 8, 7, 6, 5] =
     Some \<lparr>mem = [5, 6, 7, 8, 9], plog = [(0, 5), (0, 2), (2, 3), (3, 2)], pool = []\<rparr>"
    by code_simp
  show ?thesis
    by (intro conjI a result_independent_of_configuration)
qed


text \<open>
  Claim C7.  The program validates neither \<open>thread_count\<close> nor \<open>cutoff\<close>.  For all values
  of the two, zero and negative ones included, a pass of \<open>main\<close> has no result only when
  the OpenMP runtime does not start a team for the requested number of threads; whenever it
  does, both sorts run to completion and leave their arrays sorted with the contents
  preserved, so that the program itself turns no configuration away before sorting.  In
  particular, for every cutoff that is zero or negative the parallel sorter runs to
  completion on every array under every schedule and leaves it sorted, and every call of
  \<open>qSortPar\<close> on a range of length greater than one inside the array takes the fork branch,
  adding the two sub-ranges to the task pool, because \<open>length < cutoff\<close> is false.
\<close>

theorem main_validates_no_configuration:
  "(main_pass team_starts thread_count cutoff pick m = None \<longleftrightarrow> \<not> team_starts thread_count)
   \<and> (team_starts thread_count \<longrightarrow>
        (\<exists>s1 s2. main_pass team_starts thread_count cutoff pick m = Some (s1, s2)
           \<and> sort_sequential m = Some s1 \<and> sort_parallel cutoff pick m = Some s2
           \<and> sorted (mem s1) \<and> mset (mem s1) = mset m
           \<and> sorted (mem s2) \<and> mset (mem s2) = mset m))
   \<and> (cutoff \<le> 0 \<longrightarrow>
        (\<exists>s'. sort_parallel cutoff pick m = Some s' \<and> sorted (mem s') \<and> mset (mem s') = mset m)
        \<and> (1 < L \<and> 0 \<le> A \<and> A + L \<le> int (length (mem s)) \<longrightarrow>
             (\<exists>m' p. partition_arr (mem s) A L = Some (m', p) \<and>
                qSortPar cutoff s A L =
                  Some (s\<lparr>mem := m', plog := plog s @ [(A, L)],
                          pool := pool s @ [(A, p), (A + p, L - p)]\<rparr>))))"
proof -
  from sort_sequential_spec[of m]
  obtain s1 where 1: "sort_sequential m = Some s1" "sorted (mem s1)" "mset (mem s1) = mset m"
    by blast
  from sort_parallel_spec[of cutoff pick m]
  obtain s2 where 2: "sort_parallel cutoff pick m = Some s2" "sorted (mem s2)" "mset (mem s2) = mset m"
    by blast
  have run: "main_pass team_starts thread_count cutoff pick m =
               (if team_starts thread_count then Some (s1, s2) else None)"
    using 1(1) 2(1) by (simp add: main_pass_def)
  have A: "main_pass team_starts thread_count cutoff pick m = None \<longleftrightarrow> \<not> team_starts thread_count"
    using run by simp
  have B: "team_starts thread_count \<longrightarrow>
        (\<exists>s1 s2. main_pass team_starts thread_count cutoff pick m = Some (s1, s2)
           \<and> sort_sequential m = Some s1 \<and> sort_parallel cutoff pick m = Some s2
           \<and> sorted (mem s1) \<and> mset (mem s1) = mset m
           \<and> sorted (mem s2) \<and> mset (mem s2) = mset m)"
    using run 1 2 by simp
  have C: "cutoff \<le> 0 \<longrightarrow>
        (\<exists>s'. sort_parallel cutoff pick m = Some s' \<and> sorted (mem s') \<and> mset (mem s') = mset m)
        \<and> (1 < L \<and> 0 \<le> A \<and> A + L \<le> int (length (mem s)) \<longrightarrow>
             (\<exists>m' p. partition_arr (mem s) A L = Some (m', p) \<and>
                qSortPar cutoff s A L =
                  Some (s\<lparr>mem := m', plog := plog s @ [(A, L)],
                          pool := pool s @ [(A, p), (A + p, L - p)]\<rparr>)))"
  proof (intro impI conjI)
    show "\<exists>s'. sort_parallel cutoff pick m = Some s' \<and> sorted (mem s') \<and> mset (mem s') = mset m"
      using 2 by blast
  next
    assume c: "cutoff \<le> 0" and r: "1 < L \<and> 0 \<le> A \<and> A + L \<le> int (length (mem s))"
    then have "2 \<le> L" by simp
    from partition_spec[OF _ this, of A "mem s"] r
    obtain m' p where P: "partition_arr (mem s) A L = Some (m', p)" by blast
    have "\<not> L < cutoff" using c r by simp
    with r P have "qSortPar cutoff s A L =
        Some (s\<lparr>mem := m', plog := plog s @ [(A, L)], pool := pool s @ [(A, p), (A + p, L - p)]\<rparr>)"
      by (intro qSortPar_fork) auto
    with P show "\<exists>m' p. partition_arr (mem s) A L = Some (m', p) \<and>
                qSortPar cutoff s A L =
                  Some (s\<lparr>mem := m', plog := plog s @ [(A, L)],
                          pool := pool s @ [(A, p), (A + p, L - p)]\<rparr>)"
      by blast
  qed
  from A B C show ?thesis by blast
qed

theorem main_validates_no_configuration_witness:
  "main_pass team_any 0 (- 3) (pick_fixed 0) [9, 8, 7, 6, 5] =
     Some (\<lparr>mem = [5, 6, 7, 8, 9], plog = [(0, 5), (0, 2), (2, 3), (3, 2)], pool = []\<rparr>,
           \<lparr>mem = [5, 6, 7, 8, 9], plog = [(0, 5), (0, 2), (2, 3), (3, 2)], pool = []\<rparr>)
   \<and> main_pass team_positive (- 2) 1 (pick_fixed 0) [9, 8, 7, 6, 5] = None
   \<and> qSortPar (- 3) (init_state [2, 1]) 0 2 =
     Some \<lparr>mem = [1, 2], plog = [(0, 2)], pool = [(0, 1), (1, 1)]\<rparr>
   \<and> (\<exists>s1 s2. main_pass team_any 0 (- 3) (pick_fixed 0) [9, 8, 7, 6, 5] = Some (s1, s2)
           \<and> sort_sequential [9, 8, 7, 6, 5] = Some s1
           \<and> sort_parallel (- 3) (pick_fixed 0) [9, 8, 7, 6, 5] = Some s2
           \<and> sorted (mem s1) \<and> mset (mem s1) = mset [9, 8, 7, 6, 5]
           \<and> sorted (mem s2) \<and> mset (mem s2) = mset [9, 8, 7, 6, 5])
   \<and> (\<exists>s'. sort_parallel (- 3) (pick_fixed 0) [9, 8, 7, 6, 5] = Some s' \<and> sorted (mem s')
          \<and> mset (mem s') = mset [9, 8, 7, 6, 5])
   \<and> (\<exists>m' p. partition_arr (mem (init_state [2, 1])) 0 2 = Some (m', p) \<and>
          qSortPar (- 3) (init_state [2, 1]) 0 2 =
            Some ((init_state [2, 1])\<lparr>mem := m', plog := plog (init_state [2, 1]) @ [(0, 2)],
                    pool := pool (init_state [2, 1]) @ [(0, p), (0 + p, 2 - p)]\<rparr>))"
proof -
  have a: "main_pass team_any 0 (- 3) (pick_fixed 0) [9, 8, 7, 6, 5] =
     Some (\<lparr>mem = [5, 6, 7, 8, 9], plog = [(0, 5), (0, 2), (2, 3), (3, 2)], pool = []\<rparr>,
           \<lparr>mem = [5, 6, 7, 8, 9], plog = [(0, 5), (0, 2), (2, 3), (3, 2)], pool = []\<rparr>)"
    by code_simp
  have b: "main_pass team_positive (- 2) 1 (pick_fixed 0) [9, 8, 7, 6, 5] = None"
    by code_simp
  have c: "qSortPar (- 3) (init_state [2, 1]) 0 2 =
     Some \<lparr>mem = [1, 2], plog = [(0, 2)], pool = [(0, 1), (1, 1)]\<rparr>"
    by code_simp
  have st: "team_any 0" by (simp add: team_any_def)
  have h: "(- 3 :: int) \<le> 0" by simp
  have r: "(1::int) < 2 \<and> (0::int) \<le> 0 \<and> 0 + 2 \<le> int (length (mem (init_state [2, 1])))"
    by (simp add: init_state_def)
  note t = main_validates_no_configuration[of team_any 0 "- 3" "pick_fixed 0" "[9, 8, 7, 6, 5]"
             2 0 "init_state [2, 1]"]
  note t2 = t[THEN conjunct2, THEN conjunct1, THEN mp, OF st]
  note t3 = t[THEN conjunct2, THEN conjunct2, THEN mp, OF h]
  show ?thesis
    by (intro conjI a b c t2 t3[THEN conjunct1] t3[THEN conjunct2, THEN mp, OF r])
qed

text \<open>
  Claim C8.  Sorting is idempotent: when the input array is already in non-decreasing order,
  the sequential sorter and the parallel sorter (for every cutoff and schedule) return it
  with every element unchanged.  Arrays of length zero and one are sorted, so they are
  covered.
\<close>

theorem sorted_input_unchanged:
  assumes "sorted m"
  shows "(\<exists>s'. sort_sequential m = Some s' \<and> mem s' = m)
       \<and> (\<exists>s'. sort_parallel cutoff pick m = Some s' \<and> mem s' = m)"
proof -
  from sort_sequential_spec[of m]
  obtain s1 where 1: "sort_sequential m = Some s1" "sorted (mem s1)" "mset (mem s1) = mset m"
    by blast
  from sort_parallel_spec[of cutoff pick m]
  obtain s2 where 2: "sort_parallel cutoff pick m = Some s2" "sorted (mem s2)" "mset (mem s2) = mset m"
    by blast
  have "mem s1 = m" using 1 assms by (intro sorted_perm_unique) simp_all
  moreover have "mem s2 = m" using 2 assms by (intro sorted_perm_unique) simp_all
  ultimately show ?thesis using 1(1) 2(1) by blast
qed

theorem sorted_input_unchanged_witness:
  "sort_sequential [] = Some \<lparr>mem = [], plog = [], pool = []\<rparr>
   \<and> sort_sequential [7] = Some \<lparr>mem = [7], plog = [], pool = []\<rparr>
   \<and> sort_parallel 1 (pick_fixed 0) [7] = Some \<lparr>mem = [7], plog = [], pool = []\<rparr>
   \<and> sorted [1, 2, 2, 3 :: int]
   \<and> (\<exists>s'. sort_sequential [1, 2, 2, 3] = Some s' \<and> mem s' = [1, 2, 2, 3])
   \<and> (\<exists>s'. sort_parallel 2 (pick_fixed 1) [1, 2, 2, 3] = Some s' \<and> mem s' = [1, 2, 2, 3])"
proof -
  have a: "sort_sequential [] = Some \<lparr>mem = [], plog = [], pool = []\<rparr>" by code_simp
  have b: "sort_sequential [7] = Some \<lparr>mem = [7], plog = [], pool = []\<rparr>" by code_simp
  have c: "sort_parallel 1 (pick_fixed 0) [7] = Some \<lparr>mem = [7], plog = [], pool = []\<rparr>" by code_simp
  have h: "sorted [1, 2, 2, 3 :: int]" by simp
  note t = sorted_input_unchanged[OF h, of 2 "pick_fixed 1"]
  show ?thesis
    by (intro conjI a b c h t[THEN conjunct1] t[THEN conjunct2])
qed

text \<open>
  Claim C9.  \<open>partition\<close> on a range of length \<open>L > 1\<close> inside an enclosing array changes
  only cells of the range: the array it leaves consists of the untouched cells before the
  range, a rearrangement of the range that has the same length and the same multiset of
  values, and the untouched cells after the range.
\<close>

theorem partition_frame:
  assumes "2 \<le> L" "0 \<le> A" "A + L \<le> int (length m)"
  shows "\<exists>r p. partition_arr m A L = Some (take (nat A) m @ r @ drop (nat (A + L)) m, p)
           \<and> length r = nat L \<and> mset r = mset (slice m A L)"
proof -
  from partition_local[OF assms]
  obtain r p where rp: "partition_arr (slice m A L) 0 L = Some (r, p)"
    "partition_arr m A L = Some (take (nat A) m @ r @ drop (nat (A + L)) m, p)"
    by blast
  have len: "int (length (slice m A L)) = L" using assms by (simp add: length_slice)
  from partition_spec[of 0 L "slice m A L"] assms(1) len rp(1)
  have "length r = length (slice m A L)" "mset r = mset (slice m A L)" by auto
  with rp(2) len show ?thesis by auto
qed

theorem partition_frame_witness:
  "partition_arr [0, 2, 1, 7] 1 2 = Some ([0, 1, 2, 7], 1)
   \<and> (\<exists>r p. partition_arr [0, 2, 1, 7] 1 2 = Some (take (nat 1) [0, 2, 1, 7] @ r @ drop (nat (1 + 2)) [0, 2, 1, 7], p)
           \<and> length r = nat 2 \<and> mset r = mset (slice [0, 2, 1, 7] 1 2))"
proof -
  have a: "partition_arr [0, 2, 1, 7] 1 2 = Some ([0, 1, 2, 7], 1)" by code_simp
  have h: "(2::int) \<le> 2" "(0::int) \<le> 1" "1 + 2 \<le> int (length [0, 2, 1, 7 :: int])" by simp_all
  show ?thesis
    by (intro conjI a partition_frame[OF h])
qed

text \<open>
  Claim C10.  For every range of length \<open>L \<ge> 2\<close>, no access made by \<open>partition\<close> is out of
  bounds.  Reads and writes are modelled with a bounds check against the array object and
  yield \<open>None\<close> outside it.  Run on the range alone, as an array of its own of length \<open>L\<close>,
  \<open>partition\<close> returns \<open>Some\<close>: every index it used was within \<open>[0, L - 1]\<close>, although
  the scan loops test no bound.  Run on the range inside an enclosing array it performs the
  same computation, returns the same split index, and leaves the cells around the range as
  they were.
\<close>

theorem partition_in_bounds:
  assumes "2 \<le> L" "0 \<le> A" "A + L \<le> int (length m)"
  shows "\<exists>r p. partition_arr (slice m A L) 0 (int (length (slice m A L))) = Some (r, p)
           \<and> partition_arr m A L = Some (take (nat A) m @ r @ drop (nat (A + L)) m, p)"
proof -
  have "int (length (slice m A L)) = L" using assms by (simp add: length_slice)
  with partition_local[OF assms] show ?thesis by simp
qed

theorem partition_in_bounds_witness:
  "partition_arr [2, 1] 0 2 = Some ([1, 2], 1)
   \<and> partition_arr [2, 1] 0 3 = None
   \<and> (\<exists>r p. partition_arr (slice [0, 2, 1, 7] 1 2) 0 (int (length (slice [0, 2, 1, 7] 1 2))) = Some (r, p)
           \<and> partition_arr [0, 2, 1, 7] 1 2 = Some (take (nat 1) [0, 2, 1, 7] @ r @ drop (nat (1 + 2)) [0, 2, 1, 7], p))"
proof -
  have a: "partition_arr [2, 1] 0 2 = Some ([1, 2], 1)" by code_simp
  have b: "partition_arr [2, 1] 0 3 = None" by code_simp
  have h: "(2::int) \<le> 2" "(0::int) \<le> 1" "1 + 2 \<le> int (length [0, 2, 1, 7 :: int])" by simp_all
  show ?thesis
    by (intro conjI a b partition_in_bounds[OF h])
qed

end
